theory Spec2Isabelle
  imports Main "HOL-Library.Sublist"
begin

section \<open>htmldiff: tokenizer, matcher, operation calculator and renderer\<close>

text \<open>
  The development follows the TypeScript source of the library (\<^verbatim>\<open>htmldiff.ts\<close>): each
  function of the source is a HOL function of the same name, and each loop a recursive
  function with its termination proof. JavaScript strings are modelled as \<^typ>\<open>string\<close>;
  one \<^typ>\<open>char\<close> stands for one element of \<^verbatim>\<open>Array.from(html)\<close>, so the model covers the
  code points up to U+00FF and classifies them as JavaScript's \<^verbatim>\<open>\s\<close> and \<^verbatim>\<open>.\<close> and
  Unicode's category L do. Numbers are \<^typ>\<open>int\<close>, except for the indices of loops that
  count upwards from 0, which are \<^typ>\<open>nat\<close>. An exception is a value \<open>Inl e\<close> of a sum
  type. An optional string argument that is absent reads as the empty string, which the
  source treats alike.
\<close>

subsection \<open>Errors\<close>

datatype error =
    UnknownMode string       \<comment> \<open>\<^verbatim>\<open>throw new Error('Unknown mode ' + mode)\<close>\<close>
  | MissingBeforeTokens      \<comment> \<open>\<^verbatim>\<open>throw new Error('Missing beforeTokens')\<close>\<close>
  | MissingAfterTokens       \<comment> \<open>\<^verbatim>\<open>throw new Error('Missing afterTokens')\<close>\<close>
  | TypeError                \<comment> \<open>calling something that is not a function\<close>
  | UndefinedChar            \<comment> \<open>a read of \<^verbatim>\<open>unicodeChars[charIdx]\<close> outside the array, where
                                 the source would go on with \<^verbatim>\<open>undefined\<close>; the model stops\<close>

subsection \<open>Character classes\<close>

definition isWhitespaceChar :: "char \<Rightarrow> bool" where
  \<comment> \<open>the class \<^verbatim>\<open>\s\<close>: TAB, LF, VT, FF, CR, SPACE, NBSP\<close>
  "isWhitespaceChar c \<longleftrightarrow>
     c = CHR 0x09 \<or> c = CHR 0x0A \<or> c = CHR 0x0B \<or> c = CHR 0x0C \<or> c = CHR 0x0D
     \<or> c = CHR 0x20 \<or> c = CHR 0xA0"

definition isDotChar :: "char \<Rightarrow> bool" where
  \<comment> \<open>the class \<^verbatim>\<open>.\<close>: everything but a line terminator\<close>
  "isDotChar c \<longleftrightarrow> c \<noteq> CHR 0x0A \<and> c \<noteq> CHR 0x0D"

definition isQuoteChar :: "char \<Rightarrow> bool" where
  \<comment> \<open>the class \<^verbatim>\<open>['"]\<close>\<close>
  "isQuoteChar c \<longleftrightarrow> c = CHR 0x27 \<or> c = CHR 0x22"

definition unicodeLetterExpr :: "char \<Rightarrow> bool" where
  \<comment> \<open>\<^verbatim>\<open>XRegExp('\\p{L}|\\d')\<close>: a letter or a decimal digit\<close>
  "unicodeLetterExpr c \<longleftrightarrow>
     (let n = (of_char c :: nat) in
        (48 \<le> n \<and> n \<le> 57) \<or> (65 \<le> n \<and> n \<le> 90) \<or> (97 \<le> n \<and> n \<le> 122)
        \<or> n = 170 \<or> n = 181 \<or> n = 186
        \<or> (192 \<le> n \<and> n \<le> 214) \<or> (216 \<le> n \<and> n \<le> 246) \<or> 248 \<le> n)"

definition toLowerCaseChar :: "char \<Rightarrow> char" where
  "toLowerCaseChar c =
     (let n = (of_char c :: nat) in
        if (65 \<le> n \<and> n \<le> 90) \<or> (192 \<le> n \<and> n \<le> 222 \<and> n \<noteq> 215)
        then char_of (n + 32) else c)"

definition toLowerCase :: "string \<Rightarrow> string" where
  "toLowerCase s = map toLowerCaseChar s"

definition trim :: "string \<Rightarrow> string" where
  "trim s = rev (dropWhile isWhitespaceChar (rev (dropWhile isWhitespaceChar s)))"

definition isEndOfTag :: "char \<Rightarrow> bool" where
  "isEndOfTag c \<longleftrightarrow> c = CHR ''>''"

definition isStartOfTag :: "char \<Rightarrow> bool" where
  "isStartOfTag c \<longleftrightarrow> c = CHR ''<''"

definition isWhitespace :: "string \<Rightarrow> bool" where
  \<comment> \<open>\<^verbatim>\<open>/^\s+$/\<close>\<close>
  "isWhitespace s \<longleftrightarrow> s \<noteq> [] \<and> list_all isWhitespaceChar s"

subsection \<open>Token classification\<close>

definition isTag :: "string \<Rightarrow> string option" where
  \<comment> \<open>\<^verbatim>\<open>/^\s*<([^!>][^>]*)>\s*$/\<close>; \<open>None\<close> is \<^verbatim>\<open>false\<close>, \<open>Some n\<close> is
      \<^verbatim>\<open>match[1].trim().split(' ')[0]\<close>\<close>
  "isTag token =
     (case dropWhile isWhitespaceChar token of
        lt # c # r \<Rightarrow>
          if lt = CHR ''<'' \<and> c \<noteq> CHR ''!'' \<and> c \<noteq> CHR ''>'' then
            (case dropWhile (\<lambda>x. x \<noteq> CHR ''>'') r of
               [] \<Rightarrow> None
             | gt # aft \<Rightarrow>
                 if list_all isWhitespaceChar aft
                 then Some (takeWhile (\<lambda>x. x \<noteq> CHR '' '')
                              (trim (c # takeWhile (\<lambda>x. x \<noteq> CHR ''>'') r)))
                 else None)
          else None
      | _ \<Rightarrow> None)"

definition truthy :: "string option \<Rightarrow> bool" where
  \<comment> \<open>\<^verbatim>\<open>false\<close>, \<^verbatim>\<open>null\<close> and the empty string are falsy\<close>
  "truthy r \<longleftrightarrow> (case r of None \<Rightarrow> False | Some n \<Rightarrow> n \<noteq> [])"

definition isntTag :: "string \<Rightarrow> bool" where
  "isntTag token \<longleftrightarrow> \<not> truthy (isTag token)"

definition isStartOfHTMLComment :: "string \<Rightarrow> bool" where
  "isStartOfHTMLComment word \<longleftrightarrow> prefix ''<!--'' word"

definition isEndOfHTMLComment :: "string \<Rightarrow> bool" where
  "isEndOfHTMLComment word \<longleftrightarrow> suffix ''-->'' word"

definition atomicTags :: "string list" where
  \<comment> \<open>the alternatives of \<^verbatim>\<open>atomicTagsRegExp\<close>, in its order\<close>
  "atomicTags = [''iframe'', ''object'', ''math'', ''svg'', ''script'', ''video'',
                 ''head'', ''style'', ''a'']"

definition isStartOfAtomicTag :: "string \<Rightarrow> string option" where
  "isStartOfAtomicTag word = find (\<lambda>t. prefix (CHR ''<'' # t) word) atomicTags"

definition isEndOfAtomicTag :: "string \<Rightarrow> string \<Rightarrow> bool" where
  \<comment> \<open>\<^verbatim>\<open>substring\<close> clamps a negative start to 0, as the subtraction on \<^typ>\<open>nat\<close> does\<close>
  "isEndOfAtomicTag word tag \<longleftrightarrow>
     drop (length word - (length tag + 2)) word = ''</'' @ tag"

definition isVoidTag :: "string \<Rightarrow> bool" where
  \<comment> \<open>\<^verbatim>\<open>/^\s*<[^>]+\/>\s*$/\<close>\<close>
  "isVoidTag token \<longleftrightarrow>
     (case dropWhile isWhitespaceChar token of
        lt # r \<Rightarrow>
          lt = CHR ''<'' \<and>
          (let run = takeWhile (\<lambda>x. x \<noteq> CHR ''>'') r in
             2 \<le> length run \<and> last run = CHR ''/'' \<and>
             (case dropWhile (\<lambda>x. x \<noteq> CHR ''>'') r of
                [] \<Rightarrow> False
              | gt # aft \<Rightarrow> list_all isWhitespaceChar aft))
      | [] \<Rightarrow> False)"

definition isImgTag :: "string \<Rightarrow> bool" where
  \<comment> \<open>\<^verbatim>\<open>/^<img[\s>]/\<close>\<close>
  "isImgTag token \<longleftrightarrow>
     prefix ''<img'' token \<and>
     (case drop 4 token of [] \<Rightarrow> False | c # _ \<Rightarrow> isWhitespaceChar c \<or> c = CHR ''>'')"

definition isWrappable :: "string \<Rightarrow> bool" where
  "isWrappable token \<longleftrightarrow>
     isImgTag token \<or> isntTag token \<or> truthy (isStartOfAtomicTag token) \<or> isVoidTag token"

subsection \<open>The key of a token\<close>

definition attrAt :: "string \<Rightarrow> (string \<Rightarrow> bool) \<Rightarrow> string \<Rightarrow> string option" where
  \<comment> \<open>\<^verbatim>\<open>attr=['"]([^"']*)['"]\<close> at the start of \<open>r\<close>, then the rest of the pattern\<close>
  "attrAt attr rest r =
     (if prefix attr r then
        (case drop (length attr) r of
           [] \<Rightarrow> None
         | q # r1 \<Rightarrow>
             if isQuoteChar q then
               (case dropWhile (\<lambda>c. \<not> isQuoteChar c) r1 of
                  [] \<Rightarrow> None
                | q2 # r3 \<Rightarrow>
                    if rest r3 then Some (takeWhile (\<lambda>c. \<not> isQuoteChar c) r1) else None)
             else None)
      else None)"

fun lastMatch :: "(string \<Rightarrow> 'a option) \<Rightarrow> string \<Rightarrow> nat \<Rightarrow> 'a option" where
  \<comment> \<open>a greedy \<^verbatim>\<open>.*\<close> that may take up to \<open>k\<close> characters: the longest first\<close>
  "lastMatch f r 0 = f r"
| "lastMatch f r (Suc k) =
     (case f (drop (Suc k) r) of Some v \<Rightarrow> Some v | None \<Rightarrow> lastMatch f r k)"

definition greedyDots :: "(string \<Rightarrow> 'a option) \<Rightarrow> string \<Rightarrow> 'a option" where
  "greedyDots f r = lastMatch f r (length (takeWhile isDotChar r))"

definition dotsThenGtAtEnd :: "string \<Rightarrow> bool" where
  \<comment> \<open>\<^verbatim>\<open>.*>$\<close>\<close>
  "dotsThenGtAtEnd r \<longleftrightarrow> r \<noteq> [] \<and> last r = CHR ''>'' \<and> list_all isDotChar (butlast r)"

definition dotsThenGt :: "string \<Rightarrow> bool" where
  \<comment> \<open>\<^verbatim>\<open>.*>\<close>\<close>
  "dotsThenGt r \<longleftrightarrow> CHR ''>'' \<in> set (takeWhile isDotChar r)"

definition imgSrc :: "string \<Rightarrow> string option" where
  \<comment> \<open>\<^verbatim>\<open>/^<img.*src=['"]([^"']*)['"].*>$/\<close>\<close>
  "imgSrc token =
     (if prefix ''<img'' token
      then greedyDots (attrAt ''src='' dotsThenGtAtEnd) (drop 4 token) else None)"

definition objectData :: "string \<Rightarrow> string option" where
  \<comment> \<open>\<^verbatim>\<open>/^<object.*data=['"]([^"']*)['"]/\<close>\<close>
  "objectData token =
     (if prefix ''<object'' token
      then greedyDots (attrAt ''data='' (\<lambda>_. True)) (drop 7 token) else None)"

definition anchorHref :: "string \<Rightarrow> string option" where
  \<comment> \<open>\<^verbatim>\<open>/^<a.*href=['"]([^"']*)['"]/\<close>\<close>
  "anchorHref token =
     (if prefix ''<a'' token
      then greedyDots (attrAt ''href='' (\<lambda>_. True)) (drop 2 token) else None)"

definition iframeSrc :: "string \<Rightarrow> string option" where
  \<comment> \<open>\<^verbatim>\<open>/^<iframe.*src=['"]([^"']*)['"].*>/\<close>\<close>
  "iframeSrc token =
     (if prefix ''<iframe'' token
      then greedyDots (attrAt ''src='' dotsThenGt) (drop 7 token) else None)"

definition isSvgMathVideo :: "string \<Rightarrow> bool" where
  \<comment> \<open>\<^verbatim>\<open>/^<(svg|math|video)[\s>]/\<close>\<close>
  "isSvgMathVideo token \<longleftrightarrow>
     (\<exists>t \<in> set [''<svg'', ''<math'', ''<video''].
        prefix t token \<and>
        (case drop (length t) token of
           [] \<Rightarrow> False | c # _ \<Rightarrow> isWhitespaceChar c \<or> c = CHR ''>''))"

fun indexOf :: "string \<Rightarrow> string \<Rightarrow> nat option" where
  "indexOf [] p = (if p = [] then Some 0 else None)"
| "indexOf (c # cs) p =
     (if prefix p (c # cs) then Some 0 else map_option Suc (indexOf cs p))"

fun tagName :: "string \<Rightarrow> string option" where
  \<comment> \<open>\<^verbatim>\<open>/<([^\s>]+)[\s>]/\<close>, not anchored: the leftmost match\<close>
  "tagName [] = None"
| "tagName (c # cs) =
     (let nm = (\<lambda>x. \<not> isWhitespaceChar x \<and> x \<noteq> CHR ''>'') in
        if c = CHR ''<'' \<and> takeWhile nm cs \<noteq> [] \<and> dropWhile nm cs \<noteq> []
        then Some (takeWhile nm cs) else tagName cs)"

function collapseWhitespace :: "string \<Rightarrow> string" where
  \<comment> \<open>\<^verbatim>\<open>token.replace(/(\s+|&nbsp;|&#160;)/g, ' ')\<close>\<close>
  "collapseWhitespace [] = []"
| "collapseWhitespace (c # cs) =
     (if isWhitespaceChar c then CHR '' '' # collapseWhitespace (dropWhile isWhitespaceChar cs)
      else if prefix ''&nbsp;'' (c # cs) then CHR '' '' # collapseWhitespace (drop 5 cs)
      else if prefix ''&#160;'' (c # cs) then CHR '' '' # collapseWhitespace (drop 5 cs)
      else c # collapseWhitespace cs)"
  by pat_completeness auto
termination
  by (relation "measure length") (auto simp: length_dropWhile_le less_Suc_eq_le)

definition getKeyForToken :: "string \<Rightarrow> string" where
  "getKeyForToken token =
     (case imgSrc token of
        Some src \<Rightarrow> ''<img src=\"'' @ src @ ''\">''
      | None \<Rightarrow>
     (case objectData token of
        Some d \<Rightarrow> ''<object src=\"'' @ d @ ''\"></object>''
      | None \<Rightarrow>
     (case anchorHref token of
        Some _ \<Rightarrow> token
      | None \<Rightarrow>
     if isSvgMathVideo token then
       (case indexOf token ''data-uuid=\"'' of
          Some uuid \<Rightarrow> take uuid token @ drop (uuid + 44) token
        | None \<Rightarrow> token)
     else
     (case iframeSrc token of
        Some src \<Rightarrow> ''<iframe src=\"'' @ src @ ''\"></iframe>''
      | None \<Rightarrow>
     (case tagName token of
        Some n \<Rightarrow> ''<'' @ toLowerCase n @ ''>''
      | None \<Rightarrow> collapseWhitespace token)))))"

subsection \<open>Tokens\<close>

record token =
  str :: string
  key :: string
  pos :: int

definition createToken :: "string \<Rightarrow> int \<Rightarrow> token" where
  "createToken currentWord currentWordPos =
     \<lparr>str = currentWord, key = getKeyForToken currentWord, pos = currentWordPos\<rparr>"

subsection \<open>The tokenizer\<close>

record scanner =
  charIdx :: int
  mode :: string
  currentWord :: string
  currentWordPos :: int
  currentAtomicTag :: string
  words :: "token list"

definition pushCurrentWord :: "scanner \<Rightarrow> token list" where
  \<comment> \<open>\<^verbatim>\<open>if (currentWord) words.push(createToken(currentWord, currentWordPos))\<close>\<close>
  "pushCurrentWord s =
     (if currentWord s \<noteq> [] then words s @ [createToken (currentWord s) (currentWordPos s)]
      else words s)"

definition tagCase :: "char \<Rightarrow> scanner \<Rightarrow> scanner" where
  "tagCase c s =
     (case isStartOfAtomicTag (currentWord s) of
        Some atomicTag \<Rightarrow>
          s\<lparr>mode := ''atomic_tag'', currentAtomicTag := atomicTag,
            currentWord := currentWord s @ [c]\<rparr>
      | None \<Rightarrow>
          if isStartOfHTMLComment (currentWord s) then
            s\<lparr>mode := ''html_comment'', currentWord := currentWord s @ [c]\<rparr>
          else if isEndOfTag c then
            s\<lparr>words := words s @ [createToken (currentWord s @ ''>'') (currentWordPos s)],
              currentWord := [], currentWordPos := charIdx s + 1,
              mode := (if isWhitespace [c] then ''whitespace'' else ''char'')\<rparr>
          else s\<lparr>currentWord := currentWord s @ [c]\<rparr>)"

definition atomicTagCase :: "char \<Rightarrow> scanner \<Rightarrow> scanner" where
  "atomicTagCase c s =
     (if isEndOfTag c \<and> isEndOfAtomicTag (currentWord s) (currentAtomicTag s) then
        s\<lparr>words := words s @ [createToken (currentWord s @ ''>'') (currentWordPos s)],
          currentWord := [], currentWordPos := charIdx s + 1,
          currentAtomicTag := [], mode := ''char''\<rparr>
      else s\<lparr>currentWord := currentWord s @ [c]\<rparr>)"

definition htmlCommentCase :: "char \<Rightarrow> scanner \<Rightarrow> scanner" where
  "htmlCommentCase c s =
     (if isEndOfHTMLComment (currentWord s @ [c]) then
        s\<lparr>currentWord := [], currentWordPos := charIdx s + 1, mode := ''char''\<rparr>
      else s\<lparr>currentWord := currentWord s @ [c]\<rparr>)"

definition charCase :: "char \<Rightarrow> scanner \<Rightarrow> scanner" where
  "charCase c s =
     (if isStartOfTag c then
        s\<lparr>words := pushCurrentWord s, currentWord := ''<'', currentWordPos := charIdx s,
          mode := ''tag''\<rparr>
      else if isWhitespaceChar c then
        s\<lparr>words := pushCurrentWord s, currentWord := [c], currentWordPos := charIdx s,
          mode := ''whitespace''\<rparr>
      else if unicodeLetterExpr c then
        s\<lparr>currentWord := currentWord s @ [c]\<rparr>
      else if c = CHR ''&'' then
        s\<lparr>words := pushCurrentWord s, currentWord := [c], currentWordPos := charIdx s,
          mode := ''entity''\<rparr>
      else
        s\<lparr>words := pushCurrentWord s @ [createToken [c] (charIdx s)],
          currentWord := [], currentWordPos := charIdx s + 1\<rparr>)"

definition entityCase :: "char \<Rightarrow> scanner \<Rightarrow> scanner" where
  "entityCase c s =
     (if c = CHR '';'' then
        s\<lparr>words := words s @ [createToken (currentWord s @ [c]) (currentWordPos s)],
          currentWord := [], currentWordPos := charIdx s + 1, mode := ''char''\<rparr>
      else s\<lparr>currentWord := currentWord s @ [c]\<rparr>)"

definition whitespaceCase :: "char \<Rightarrow> scanner \<Rightarrow> scanner" where
  "whitespaceCase c s =
     (if isStartOfTag c then
        s\<lparr>words := pushCurrentWord s, currentWord := ''<'', currentWordPos := charIdx s,
          mode := ''tag''\<rparr>
      else if isWhitespace [c] then
        s\<lparr>currentWord := currentWord s @ [c]\<rparr>
      else
        s\<lparr>words := pushCurrentWord s, currentWord := [],
          charIdx := charIdx s - 1, currentWordPos := charIdx s - 1, mode := ''char''\<rparr>)"

definition scanStep :: "string \<Rightarrow> scanner \<Rightarrow> error + scanner" where
  \<comment> \<open>one turn of the \<^verbatim>\<open>for\<close> loop: the \<^verbatim>\<open>switch\<close>, then \<^verbatim>\<open>charIdx++\<close>\<close>
  "scanStep unicodeChars s =
     (if charIdx s < 0 then Inl UndefinedChar
      else
        (let c = unicodeChars ! nat (charIdx s);
             next = (\<lambda>t. Inr (t\<lparr>charIdx := charIdx t + 1\<rparr>))
         in
           if mode s = ''tag'' then next (tagCase c s)
           else if mode s = ''atomic_tag'' then next (atomicTagCase c s)
           else if mode s = ''html_comment'' then next (htmlCommentCase c s)
           else if mode s = ''char'' then next (charCase c s)
           else if mode s = ''entity'' then next (entityCase c s)
           else if mode s = ''whitespace'' then next (whitespaceCase c s)
           else Inl (UnknownMode (mode s))))"

definition scanMeasure :: "string \<Rightarrow> scanner \<Rightarrow> nat" where
  "scanMeasure unicodeChars s =
     2 * nat (int (length unicodeChars) - charIdx s)
     + (if mode s = ''whitespace'' then 1 else 0)"

lemma scanStep_decreases:
  assumes "scanStep unicodeChars s = Inr s'" and "charIdx s < int (length unicodeChars)"
  shows "scanMeasure unicodeChars s' < scanMeasure unicodeChars s"
  using assms
  unfolding scanStep_def scanMeasure_def Let_def tagCase_def atomicTagCase_def
    htmlCommentCase_def charCase_def entityCase_def whitespaceCase_def
  by (auto split: if_splits option.splits)

function scanLoop :: "string \<Rightarrow> scanner \<Rightarrow> error + scanner" where
  "scanLoop unicodeChars s =
     (if charIdx s < int (length unicodeChars) then
        (case scanStep unicodeChars s of
           Inl e \<Rightarrow> Inl e
         | Inr s' \<Rightarrow> scanLoop unicodeChars s')
      else Inr s)"
  by pat_completeness auto
termination
  by (relation "measure (\<lambda>(u, s). scanMeasure u s)") (auto simp: scanStep_decreases)

declare scanLoop.simps [simp del]

definition htmlToTokens :: "string \<Rightarrow> error + token list" where
  "htmlToTokens html =
     (case scanLoop html
             \<lparr>charIdx = 0, mode = ''char'', currentWord = [], currentWordPos = 0,
              currentAtomicTag = [], words = []\<rparr> of
        Inl e \<Rightarrow> Inl e
      | Inr s \<Rightarrow> Inr (pushCurrentWord s))"

subsection \<open>Arrays and objects\<close>

definition relativeIndex :: "nat \<Rightarrow> int \<Rightarrow> nat" where
  \<comment> \<open>how \<^verbatim>\<open>Array.prototype.slice\<close> reads an index: a negative one counts from the end,
      and the result is clamped to the array\<close>
  "relativeIndex len k = (if k < 0 then nat (int len + k) else min (nat k) len)"

definition slice :: "'a list \<Rightarrow> int \<Rightarrow> int \<Rightarrow> 'a list" where
  "slice xs start stop =
     (let from = relativeIndex (length xs) start; to = relativeIndex (length xs) stop
      in take (to - from) (drop from xs))"

definition sliceFrom :: "'a list \<Rightarrow> int \<Rightarrow> 'a list" where
  "sliceFrom xs start = drop (relativeIndex (length xs) start) xs"

definition at :: "'a list \<Rightarrow> int \<Rightarrow> 'a option" where
  \<comment> \<open>\<^verbatim>\<open>xs[i]\<close>, which is \<^verbatim>\<open>undefined\<close> outside the array\<close>
  "at xs i = (if 0 \<le> i \<and> i < int (length xs) then Some (xs ! nat i) else None)"

definition keyAt :: "token list \<Rightarrow> int \<Rightarrow> string option" where
  \<comment> \<open>\<^verbatim>\<open>tokens[i]?.key\<close>\<close>
  "keyAt tokens i = map_option key (at tokens i)"

definition numberTruthy :: "int option \<Rightarrow> bool" where
  \<comment> \<open>\<^verbatim>\<open>undefined\<close> and 0 are falsy\<close>
  "numberTruthy n \<longleftrightarrow> (case n of None \<Rightarrow> False | Some k \<Rightarrow> k \<noteq> 0)"

text \<open>
  \<open>createMap\<close> stores its entries in an object literal \<^verbatim>\<open>{}\<close>. A property read on such
  an object finds the properties of \<^verbatim>\<open>Object.prototype\<close> too, which are functions (or,
  for \<^verbatim>\<open>__proto__\<close>, the prototype itself): truthy values without \<^verbatim>\<open>push\<close> or
  \<^verbatim>\<open>forEach\<close>.
\<close>

datatype property = Indices "nat list" | Inherited

type_synonym object = "string \<Rightarrow> property option"

definition objectPrototype :: "string list" where
  "objectPrototype =
     [''constructor'', ''__defineGetter__'', ''__defineSetter__'', ''hasOwnProperty'',
      ''__lookupGetter__'', ''__lookupSetter__'', ''isPrototypeOf'', ''propertyIsEnumerable'',
      ''toString'', ''valueOf'', ''__proto__'', ''toLocaleString'']"

definition emptyObject :: object where
  "emptyObject k = (if k \<in> set objectPrototype then Some Inherited else None)"

subsection \<open>Segments and matches\<close>

fun createMapFrom :: "object \<Rightarrow> nat \<Rightarrow> token list \<Rightarrow> error + object" where
  \<comment> \<open>the \<^verbatim>\<open>reduce\<close> of \<open>createMap\<close>, from the given index on\<close>
  "createMapFrom m index [] = Inr m"
| "createMapFrom m index (t # ts) =
     (case m (key t) of
        Some (Indices is) \<Rightarrow> createMapFrom (m(key t \<mapsto> Indices (is @ [index]))) (Suc index) ts
      | Some Inherited \<Rightarrow> Inl TypeError
      | None \<Rightarrow> createMapFrom (m(key t \<mapsto> Indices [index])) (Suc index) ts)"

definition createMap :: "token list \<Rightarrow> error + object" where
  "createMap tokens = createMapFrom emptyObject 0 tokens"

record segment =
  beforeTokens :: "token list"
  afterTokens :: "token list"
  beforeMap :: object
  afterMap :: object
  beforeIndex :: int
  afterIndex :: int

definition createSegment :: "token list \<Rightarrow> token list \<Rightarrow> int \<Rightarrow> int \<Rightarrow> error + segment" where
  "createSegment bs as bi ai =
     (case createMap bs of
        Inl e \<Rightarrow> Inl e
      | Inr bm \<Rightarrow>
          (case createMap as of
             Inl e \<Rightarrow> Inl e
           | Inr am \<Rightarrow>
               Inr \<lparr>beforeTokens = bs, afterTokens = as, beforeMap = bm, afterMap = am,
                    beforeIndex = bi, afterIndex = ai\<rparr>))"

record match =
  segment :: segment
  length' :: int
  startInBefore :: int
  startInAfter :: int
  endInBefore :: int
  endInAfter :: int
  segmentStartInBefore :: int
  segmentStartInAfter :: int
  segmentEndInBefore :: int
  segmentEndInAfter :: int

definition makeMatch :: "int \<Rightarrow> int \<Rightarrow> int \<Rightarrow> segment \<Rightarrow> match" where
  "makeMatch sb sa len seg =
     \<lparr>segment = seg, length' = len,
      startInBefore = sb + beforeIndex seg,
      startInAfter = sa + afterIndex seg,
      endInBefore = sb + beforeIndex seg + len - 1,
      endInAfter = sa + afterIndex seg + len - 1,
      segmentStartInBefore = sb,
      segmentStartInAfter = sa,
      segmentEndInBefore = sb + len - 1,
      segmentEndInAfter = sa + len - 1\<rparr>"

function extendMatch :: "token list \<Rightarrow> token list \<Rightarrow> int \<Rightarrow> int \<Rightarrow> int \<Rightarrow> int" where
  \<comment> \<open>the \<^verbatim>\<open>while (searching && ...)\<close> loop of \<open>getFullMatch\<close>; returns \<^verbatim>\<open>currentLength\<close>\<close>
  "extendMatch bs as beforeStart afterStart currentLength =
     (if beforeStart + currentLength < int (length bs) \<and> afterStart + currentLength < int (length as)
      then
        if keyAt bs (beforeStart + currentLength) = keyAt as (afterStart + currentLength)
        then extendMatch bs as beforeStart afterStart (currentLength + 1)
        else currentLength
      else currentLength)"
  by pat_completeness auto
termination
  by (relation "measure (\<lambda>(bs, as, b, a, n). nat (int (length bs) - b - n))") auto

declare extendMatch.simps [simp del]

definition getFullMatch :: "segment \<Rightarrow> int \<Rightarrow> int \<Rightarrow> int \<Rightarrow> bool \<Rightarrow> match option" where
  "getFullMatch seg beforeStart afterStart minLength lookBehind =
     (let bs = beforeTokens seg; as = afterTokens seg;
          minBeforeIndex = beforeStart + minLength;
          minAfterIndex = afterStart + minLength
      in
        if minBeforeIndex \<ge> int (length bs) \<or> minAfterIndex \<ge> int (length as) then None
        else if minLength \<noteq> 0 \<and> keyAt bs minBeforeIndex \<noteq> keyAt as minAfterIndex then None
        else
          (let currentLength = extendMatch bs as beforeStart afterStart 1 in
             if lookBehind \<and> beforeStart > 0 \<and> afterStart > 0
                \<and> keyAt bs (beforeStart - 1) = Some '' ''
                \<and> keyAt as (afterStart - 1) = Some '' ''
             then Some (makeMatch (beforeStart - 1) (afterStart - 1) (currentLength + 1) seg)
             else Some (makeMatch beforeStart afterStart currentLength seg)))"

fun forEachLocation :: "segment \<Rightarrow> int \<Rightarrow> bool \<Rightarrow> nat list \<Rightarrow> match option \<Rightarrow> match option" where
  \<comment> \<open>\<^verbatim>\<open>afterTokenLocations.forEach(...)\<close> at \<^verbatim>\<open>beforeIndex\<close> \<open>i\<close>, over the
      \<^verbatim>\<open>afterIndex\<close> values \<open>j\<close>, threading \<^verbatim>\<open>bestMatch\<close>\<close>
  "forEachLocation seg i lookBehind [] bestMatch = bestMatch"
| "forEachLocation seg i lookBehind (j # locations) bestMatch =
     (let bestMatchLength = (case bestMatch of Some b \<Rightarrow> length' b | None \<Rightarrow> 0) in
        forEachLocation seg i lookBehind locations
          (case getFullMatch seg i (int j) bestMatchLength lookBehind of
             Some m \<Rightarrow> if length' m > bestMatchLength then Some m else bestMatch
           | None \<Rightarrow> bestMatch))"

function findBestMatchFrom ::
  "segment \<Rightarrow> nat \<Rightarrow> nat option \<Rightarrow> match option \<Rightarrow> error + match option" where
  \<comment> \<open>the \<^verbatim>\<open>for\<close> loop of \<open>findBestMatch\<close> from \<^verbatim>\<open>beforeIndex\<close> on, with \<^verbatim>\<open>lastSpace\<close>
      and \<^verbatim>\<open>bestMatch\<close>\<close>
  "findBestMatchFrom seg i lastSpace bestMatch =
     (if i < length (beforeTokens seg) then
        if (case bestMatch of
              Some b \<Rightarrow> int (length (beforeTokens seg)) - int i < length' b
            | None \<Rightarrow> False)
        then Inr bestMatch
        else
          (let beforeToken = beforeTokens seg ! i in
             if key beforeToken = '' '' then findBestMatchFrom seg (Suc i) (Some i) bestMatch
             else
               (let lookBehind = (map_option int lastSpace = Some (int i - 1)) in
                  case afterMap seg (key beforeToken) of
                    None \<Rightarrow> findBestMatchFrom seg (Suc i) lastSpace bestMatch
                  | Some Inherited \<Rightarrow> Inl TypeError
                  | Some (Indices locations) \<Rightarrow>
                      findBestMatchFrom seg (Suc i) lastSpace
                        (forEachLocation seg (int i) lookBehind locations bestMatch)))
      else Inr bestMatch)"
  by pat_completeness auto
termination
  by (relation "measure (\<lambda>(seg, i, l, b). length (beforeTokens seg) - i)") auto

declare findBestMatchFrom.simps [simp del]

definition findBestMatch :: "segment \<Rightarrow> error + match option" where
  "findBestMatch seg = findBestMatchFrom seg 0 None None"

subsection \<open>The ordered collection of matches\<close>

definition compareMatches :: "match \<Rightarrow> match \<Rightarrow> int" where
  "compareMatches m1 m2 =
     (if endInBefore m2 < startInBefore m1 \<and> endInAfter m2 < startInAfter m1 then - 1
      else if startInBefore m2 > endInBefore m1 \<and> startInAfter m2 > endInAfter m1 then 1
      else 0)"

datatype treeNode = Null | TreeNode match treeNode treeNode
  \<comment> \<open>\<^verbatim>\<open>{value, left, right}\<close>, or \<^verbatim>\<open>null\<close>\<close>

fun addToNode :: "treeNode \<Rightarrow> match \<Rightarrow> treeNode" where
  "addToNode Null m = TreeNode m Null Null"
| "addToNode (TreeNode v l r) m =
     (let position = compareMatches v m in
        if position = - 1 then TreeNode v (addToNode l m) r
        else if position = 1 then TreeNode v l (addToNode r m)
        else TreeNode v l r)"

fun nodeToArray :: "treeNode \<Rightarrow> match list" where
  "nodeToArray Null = []"
| "nodeToArray (TreeNode v l r) = nodeToArray l @ [v] @ nodeToArray r"

subsection \<open>All matching blocks\<close>

definition leftSegment :: "segment \<Rightarrow> segment \<Rightarrow> match \<Rightarrow> error + segment list" where
  \<comment> \<open>the segment pushed for the area before the match, if any; its before tokens are
      sliced from the segment \<open>findMatchingBlocks\<close> was called with, as the source does\<close>
  "leftSegment root currSegment m =
     (if segmentStartInBefore m > 0 \<and> segmentStartInAfter m > 0 then
        (case createSegment (slice (beforeTokens root) 0 (segmentStartInBefore m))
                (slice (afterTokens currSegment) 0 (segmentStartInAfter m))
                (beforeIndex currSegment) (afterIndex currSegment) of
           Inl e \<Rightarrow> Inl e
         | Inr s \<Rightarrow> Inr [s])
      else Inr [])"

definition rightSegment :: "segment \<Rightarrow> match \<Rightarrow> error + segment list" where
  \<comment> \<open>the segment pushed for the area after the match, if any\<close>
  "rightSegment currSegment m =
     (let rightBeforeTokens = sliceFrom (beforeTokens currSegment) (segmentEndInBefore m + 1);
          rightAfterTokens = sliceFrom (afterTokens currSegment) (segmentEndInAfter m + 1);
          rightBeforeIndex = beforeIndex currSegment + segmentEndInBefore m + 1;
          rightAfterIndex = afterIndex currSegment + segmentEndInAfter m + 1
      in
        if length rightBeforeTokens \<noteq> 0 \<and> length rightAfterTokens \<noteq> 0 then
          (case createSegment rightBeforeTokens rightAfterTokens rightBeforeIndex rightAfterIndex of
             Inl e \<Rightarrow> Inl e
           | Inr s \<Rightarrow> Inr [s])
        else Inr [])"

definition segmentSize :: "segment \<Rightarrow> nat" where
  "segmentSize s = length (beforeTokens s) + length (afterTokens s) + 1"

subsection \<open>What a match found in a segment looks like\<close>

text \<open>
  A match that \<open>findBestMatch\<close> returns has at least one token and lies inside the two
  token lists of its segment. This is what makes the work list of \<open>findMatchingBlocks\<close>
  shrink.
\<close>

definition localMatch :: "segment \<Rightarrow> match \<Rightarrow> bool" where
  "localMatch seg m \<longleftrightarrow>
     1 \<le> length' m \<and> 0 \<le> segmentStartInBefore m \<and> 0 \<le> segmentStartInAfter m \<and>
     segmentStartInBefore m + length' m \<le> int (length (beforeTokens seg)) \<and>
     segmentStartInAfter m + length' m \<le> int (length (afterTokens seg)) \<and>
     m = makeMatch (segmentStartInBefore m) (segmentStartInAfter m) (length' m) seg"

lemma extendMatch_bounds:
  "c \<le> extendMatch bs as b a c \<and>
   (b + c \<le> int (length bs) \<longrightarrow> b + extendMatch bs as b a c \<le> int (length bs)) \<and>
   (a + c \<le> int (length as) \<longrightarrow> a + extendMatch bs as b a c \<le> int (length as))"
proof (induction bs as b a c rule: extendMatch.induct)
  case (1 bs as b a c)
  show ?case
  proof (cases "b + c < int (length bs) \<and> a + c < int (length as)
                \<and> keyAt bs (b + c) = keyAt as (a + c)")
    case True
    with 1 show ?thesis by (subst (1 2 3) extendMatch.simps) auto
  next
    case False
    then show ?thesis by (subst (1 2 3) extendMatch.simps) auto
  qed
qed

lemma localMatch_makeMatch:
  "1 \<le> n \<Longrightarrow> 0 \<le> b \<Longrightarrow> 0 \<le> a \<Longrightarrow> b + n \<le> int (length (beforeTokens seg)) \<Longrightarrow>
   a + n \<le> int (length (afterTokens seg)) \<Longrightarrow> localMatch seg (makeMatch b a n seg)"
  by (simp add: localMatch_def makeMatch_def)

lemma getFullMatch_local:
  assumes "getFullMatch seg b a minLength lookBehind = Some m"
      and "0 \<le> b" "0 \<le> a" "0 \<le> minLength"
  shows "localMatch seg m"
proof -
  let ?n = "extendMatch (beforeTokens seg) (afterTokens seg) b a 1"
  from assms have lt: "b < int (length (beforeTokens seg))" "a < int (length (afterTokens seg))"
    by (auto simp: getFullMatch_def Let_def split: if_splits)
  with extendMatch_bounds[of 1 "beforeTokens seg" "afterTokens seg" b a]
  have n: "1 \<le> ?n" "b + ?n \<le> int (length (beforeTokens seg))"
    "a + ?n \<le> int (length (afterTokens seg))" by auto
  from assms(1) consider "m = makeMatch (b - 1) (a - 1) (?n + 1) seg" "b > 0" "a > 0"
    | "m = makeMatch b a ?n seg"
    by (auto simp: getFullMatch_def Let_def split: if_splits)
  then show ?thesis
  proof cases
    case 1
    then show ?thesis using n by (auto intro!: localMatch_makeMatch)
  next
    case 2
    then show ?thesis using n assms(2,3) by (auto intro!: localMatch_makeMatch)
  qed
qed

definition localBest :: "segment \<Rightarrow> match option \<Rightarrow> bool" where
  "localBest seg best \<longleftrightarrow> (case best of None \<Rightarrow> True | Some m \<Rightarrow> localMatch seg m)"

lemma forEachLocation_local:
  "localBest seg best \<Longrightarrow> 0 \<le> i \<Longrightarrow> localBest seg (forEachLocation seg i lookBehind locations best)"
proof (induction locations arbitrary: best)
  case Nil
  then show ?case by simp
next
  case (Cons j locations)
  let ?len = "case best of Some b \<Rightarrow> length' b | None \<Rightarrow> 0"
  have len0: "0 \<le> ?len" using Cons.prems(1)
    by (auto simp: localBest_def localMatch_def split: option.splits)
  have "localBest seg
          (case getFullMatch seg i (int j) ?len lookBehind of
             Some m \<Rightarrow> if length' m > ?len then Some m else best
           | None \<Rightarrow> best)"
    using Cons.prems getFullMatch_local[of seg i "int j" ?len lookBehind] len0
    by (auto simp: localBest_def split: option.splits)
  from Cons.IH[OF this Cons.prems(2)] show ?case by (simp add: Let_def)
qed

lemma findBestMatchFrom_local:
  "localBest seg best \<Longrightarrow> findBestMatchFrom seg i lastSpace best = Inr r \<Longrightarrow> localBest seg r"
proof (induction seg i lastSpace best rule: findBestMatchFrom.induct)
  case (1 seg i lastSpace bestMatch)
  note IH = "1.IH" and best = "1.prems"(1) and res = "1.prems"(2)
  let ?stop = "case bestMatch of
                 Some b \<Rightarrow> int (length (beforeTokens seg)) - int i < length' b
               | None \<Rightarrow> False"
  let ?t = "beforeTokens seg ! i"
  let ?lb = "map_option int lastSpace = Some (int i - 1)"
  show ?case
  proof (cases "i < length (beforeTokens seg) \<and> \<not> ?stop")
    case False
    with res have "r = bestMatch"
      by (subst (asm) findBestMatchFrom.simps) (auto split: if_splits)
    with best show ?thesis by simp
  next
    case True
    then have lt: "i < length (beforeTokens seg)" and ns: "\<not> ?stop" by auto
    show ?thesis
    proof (cases "key ?t = '' ''")
      case sp: True
      from res lt ns sp have "findBestMatchFrom seg (Suc i) (Some i) bestMatch = Inr r"
        by (subst (asm) findBestMatchFrom.simps) (simp add: Let_def)
      from IH(1)[OF lt ns refl sp best this] show ?thesis .
    next
      case nsp: False
      show ?thesis
      proof (cases "afterMap seg (key ?t)")
        case None
        with res lt ns nsp have "findBestMatchFrom seg (Suc i) lastSpace bestMatch = Inr r"
          by (subst (asm) findBestMatchFrom.simps) (simp add: Let_def)
        from IH(2)[OF lt ns refl nsp refl None best this] show ?thesis .
      next
        case (Some p)
        show ?thesis
        proof (cases p)
          case Inherited
          with res lt ns nsp Some show ?thesis
            by (subst (asm) findBestMatchFrom.simps) (simp add: Let_def)
        next
          case (Indices locations)
          with res lt ns nsp Some
          have "findBestMatchFrom seg (Suc i) lastSpace
                  (forEachLocation seg (int i) ?lb locations bestMatch) = Inr r"
            by (subst (asm) findBestMatchFrom.simps) (simp add: Let_def)
          moreover have "localBest seg (forEachLocation seg (int i) ?lb locations bestMatch)"
            by (rule forEachLocation_local[OF best]) simp
          ultimately show ?thesis
            using IH(3)[OF lt ns refl nsp refl Some Indices] by blast
        qed
      qed
    qed
  qed
qed

lemma findBestMatch_local:
  "findBestMatch seg = Inr (Some m) \<Longrightarrow> localMatch seg m"
  using findBestMatchFrom_local[of seg None 0 None "Some m"]
  by (simp add: findBestMatch_def localBest_def)

lemma length_slice0: "0 \<le> n \<Longrightarrow> length (slice xs 0 n) \<le> nat n"
  by (simp add: slice_def relativeIndex_def Let_def)

lemma length_sliceFrom: "0 \<le> n \<Longrightarrow> length (sliceFrom xs n) = length xs - nat n"
  by (simp add: sliceFrom_def relativeIndex_def)

lemma createSegment_tokens:
  "createSegment bs as bi ai = Inr s \<Longrightarrow>
   beforeTokens s = bs \<and> afterTokens s = as \<and> beforeIndex s = bi \<and> afterIndex s = ai"
  by (auto simp: createSegment_def split: sum.splits)

lemma split_decreases:
  assumes m: "localMatch cur m"
      and l: "leftSegment root cur m = Inr l" and r: "rightSegment cur m = Inr r"
  shows "sum_list (map segmentSize (r @ l)) < segmentSize cur"
proof -
  from m have f: "segmentEndInBefore m = segmentStartInBefore m + length' m - 1"
      "segmentEndInAfter m = segmentStartInAfter m + length' m - 1"
    by (auto simp: localMatch_def makeMatch_def) (metis match.select_convs)+
  from m have b: "1 \<le> length' m" "0 \<le> segmentStartInBefore m" "0 \<le> segmentStartInAfter m"
      "segmentStartInBefore m + length' m \<le> int (length (beforeTokens cur))"
      "segmentStartInAfter m + length' m \<le> int (length (afterTokens cur))"
    by (auto simp: localMatch_def)
  have L: "sum_list (map segmentSize l) \<le> nat (segmentStartInBefore m) + nat (segmentStartInAfter m) + 1"
    using l b length_slice0[of "segmentStartInBefore m" "beforeTokens root"]
      length_slice0[of "segmentStartInAfter m" "afterTokens cur"]
    by (auto simp: leftSegment_def segmentSize_def split: if_splits sum.splits
        dest!: createSegment_tokens)
  have R: "sum_list (map segmentSize r) \<le>
             (length (beforeTokens cur) - nat (segmentStartInBefore m + length' m))
             + (length (afterTokens cur) - nat (segmentStartInAfter m + length' m)) + 1"
    using r b f
      length_sliceFrom[of "segmentStartInBefore m + length' m" "beforeTokens cur"]
      length_sliceFrom[of "segmentStartInAfter m + length' m" "afterTokens cur"]
    by (auto simp: rightSegment_def segmentSize_def Let_def split: if_splits sum.splits
        dest!: createSegment_tokens)
  have R0: "r = [] \<or> sum_list (map segmentSize r) \<le>
             (length (beforeTokens cur) - nat (segmentStartInBefore m + length' m))
             + (length (afterTokens cur) - nat (segmentStartInAfter m + length' m)) + 1" 
    using R by simp
  show ?thesis
  proof (cases "l = []")
    case True
    then show ?thesis using R b by (simp add: segmentSize_def)
  next
    case False
    then have "0 < segmentStartInBefore m" "0 < segmentStartInAfter m"
      using l by (auto simp: leftSegment_def split: if_splits)
    then show ?thesis using L R b by (simp add: segmentSize_def)
  qed
qed

function findMatchingBlocksLoop :: "segment \<Rightarrow> segment list \<Rightarrow> treeNode \<Rightarrow> error + treeNode" where
  \<comment> \<open>the \<^verbatim>\<open>while (segments.length)\<close> loop; the head of the list is the top of the stack\<close>
  "findMatchingBlocksLoop root [] matches = Inr matches"
| "findMatchingBlocksLoop root (currSegment # segments) matches =
     (case findBestMatch currSegment of
        Inl e \<Rightarrow> Inl e
      | Inr None \<Rightarrow> findMatchingBlocksLoop root segments matches
      | Inr (Some m) \<Rightarrow>
          if length' m \<noteq> 0 then
            (case leftSegment root currSegment m of
               Inl e \<Rightarrow> Inl e
             | Inr l \<Rightarrow>
                 (case rightSegment currSegment m of
                    Inl e \<Rightarrow> Inl e
                  | Inr r \<Rightarrow>
                      findMatchingBlocksLoop root (r @ l @ segments) (addToNode matches m)))
          else findMatchingBlocksLoop root segments matches)"
  by pat_completeness auto
termination
proof (relation "measure (\<lambda>(root, segments, matches). sum_list (map segmentSize segments))",
    goal_cases)
  case 1
  show ?case by simp
next
  case (2 root currSegment segments matches)
  show ?case by (simp add: segmentSize_def)
next
  case (3 root currSegment segments matches x m l r)
  then have "localMatch currSegment m" by (simp add: findBestMatch_local)
  from split_decreases[OF this 3(4) 3(5)] show ?case by simp
next
  case (4 root currSegment segments matches x m)
  show ?case by (simp add: segmentSize_def)
qed

declare findMatchingBlocksLoop.simps [simp del]

definition findMatchingBlocks :: "segment \<Rightarrow> error + match list" where
  "findMatchingBlocks seg =
     (case findMatchingBlocksLoop seg [seg] Null of
        Inl e \<Rightarrow> Inl e
      | Inr matches \<Rightarrow> Inr (nodeToArray matches))"

subsection \<open>Operations\<close>

datatype action = Equal | Insert | Delete | Replace

record operation =
  action :: action
  startInBefore :: int
  endInBefore :: "int option"
  startInAfter :: int
  endInAfter :: "int option"

fun operationsFrom :: "int \<Rightarrow> int \<Rightarrow> match list \<Rightarrow> operation list" where
  \<comment> \<open>\<^verbatim>\<open>matches.forEach(...)\<close> with the two cursors; \<open>None\<close> is the action \<^verbatim>\<open>'none'\<close>\<close>
  "operationsFrom positionInBefore positionInAfter [] = []"
| "operationsFrom positionInBefore positionInAfter (m # matches) =
     (let actionUpToMatchPositions =
            (if positionInBefore = match.startInBefore m then
               (if positionInAfter \<noteq> match.startInAfter m then Some Insert else None)
             else
               (if positionInAfter \<noteq> match.startInAfter m then Some Replace else Some Delete))
      in
        (case actionUpToMatchPositions of
           None \<Rightarrow> []
         | Some a \<Rightarrow>
             [\<lparr>action = a,
               startInBefore = positionInBefore,
               endInBefore = (if a \<noteq> Insert then Some (match.startInBefore m - 1) else None),
               startInAfter = positionInAfter,
               endInAfter = (if a \<noteq> Delete then Some (match.startInAfter m - 1) else None)\<rparr>])
        @ (if length' m \<noteq> 0 then
             [\<lparr>action = Equal,
               startInBefore = match.startInBefore m,
               endInBefore = Some (match.endInBefore m),
               startInAfter = match.startInAfter m,
               endInAfter = Some (match.endInAfter m)\<rparr>]
           else [])
        @ operationsFrom (match.endInBefore m + 1) (match.endInAfter m + 1) matches)"

fun join :: "string list \<Rightarrow> string \<Rightarrow> string" where
  "join [] sep = []"
| "join [x] sep = x"
| "join (x # y # r) sep = x @ sep @ join (y # r) sep"

definition arrayToString :: "token list \<Rightarrow> string" where
  \<comment> \<open>\<^verbatim>\<open>Array.prototype.toString\<close> joins the elements' own strings with commas, and a
      token is a plain object\<close>
  "arrayToString tokens = join (map (\<lambda>t. ''[object Object]'') tokens) '',''"

definition singleWhitespace :: "string \<Rightarrow> bool" where
  \<comment> \<open>\<^verbatim>\<open>/^\s$/\<close>\<close>
  "singleWhitespace s \<longleftrightarrow> (case s of [c] \<Rightarrow> isWhitespaceChar c | _ \<Rightarrow> False)"

definition isSingleWhitespace :: "token list \<Rightarrow> operation \<Rightarrow> bool" where
  "isSingleWhitespace bTokens op \<longleftrightarrow>
     (if action op \<noteq> Equal then False
      else if \<not> numberTruthy (endInBefore op) then False
      else if the (endInBefore op) - startInBefore op \<noteq> 0 then False
      else singleWhitespace
             (arrayToString (slice bTokens (startInBefore op) (the (endInBefore op) + 1))))"

fun postProcess :: "token list \<Rightarrow> action option \<Rightarrow> operation list \<Rightarrow> operation list" where
  \<comment> \<open>\<^verbatim>\<open>operations.forEach(...)\<close>; of \<^verbatim>\<open>lastOp\<close> only the action is read, \<open>None\<close> is
      \<^verbatim>\<open>'none'\<close>\<close>
  "postProcess bTokens lastOp [] = []"
| "postProcess bTokens lastOp (op # operations) =
     (if (isSingleWhitespace bTokens op \<and> lastOp = Some Replace)
         \<or> (action op = Replace \<and> lastOp = Some Replace)
      then postProcess bTokens lastOp operations
      else op # postProcess bTokens (Some (action op)) operations)"

definition calculateOperations ::
  "token list option \<Rightarrow> token list option \<Rightarrow> error + operation list" where
  \<comment> \<open>\<open>None\<close> is an argument that is \<^verbatim>\<open>null\<close> or \<^verbatim>\<open>undefined\<close>\<close>
  "calculateOperations bTokens aTokens =
     (case bTokens of
        None \<Rightarrow> Inl MissingBeforeTokens
      | Some bs \<Rightarrow>
     (case aTokens of
        None \<Rightarrow> Inl MissingAfterTokens
      | Some as \<Rightarrow>
     (case createSegment bs as 0 0 of
        Inl e \<Rightarrow> Inl e
      | Inr seg \<Rightarrow>
     (case findMatchingBlocks seg of
        Inl e \<Rightarrow> Inl e
      | Inr matches \<Rightarrow>
          Inr (postProcess bs None
                 (operationsFrom 0 0
                    (matches @ [makeMatch (int (length bs)) (int (length as)) 0 seg])))))))"

subsection \<open>Wrapping tokens\<close>

fun reduceIndexed :: "('b \<Rightarrow> 'a \<Rightarrow> nat \<Rightarrow> 'b) \<Rightarrow> 'b \<Rightarrow> nat \<Rightarrow> 'a list \<Rightarrow> 'b" where
  \<comment> \<open>\<^verbatim>\<open>xs.reduce(f, init)\<close>, whose callback also receives the index\<close>
  "reduceIndexed f acc index [] = acc"
| "reduceIndexed f acc index (x # xs) = reduceIndexed f (f acc x index) (Suc index) xs"

record tokenNote =
  isWrappableN :: bool    \<comment> \<open>the field \<^verbatim>\<open>isWrappable\<close> of a note\<close>
  insertedTag :: bool

record tagEntry =
  tag :: string
  position :: nat

record wrapperData =
  notes' :: "tokenNote list"
  tagStack :: "tagEntry list"

definition tokenWrapperStep :: "wrapperData \<Rightarrow> string \<Rightarrow> nat \<Rightarrow> wrapperData" where
  \<comment> \<open>the callback of the \<^verbatim>\<open>reduce\<close> in \<open>TokenWrapper\<close>; the top of the stack is the last
      entry\<close>
  "tokenWrapperStep data token index =
     (let notes1 = notes' data @ [\<lparr>isWrappableN = isWrappable token, insertedTag = False\<rparr>];
          tagOf = (if isVoidTag token then None else isTag token)
      in
        if truthy tagOf then
          (if tagStack data \<noteq> [] \<and> CHR ''/'' # tag (last (tagStack data)) = the tagOf then
             \<lparr>notes' = notes1[position (last (tagStack data)) :=
                        (notes1 ! position (last (tagStack data)))\<lparr>insertedTag := True\<rparr>],
              tagStack = butlast (tagStack data)\<rparr>
           else
             \<lparr>notes' = notes1,
              tagStack = tagStack data @ [\<lparr>tag = the tagOf, position = index\<rparr>]\<rparr>)
        else \<lparr>notes' = notes1, tagStack = tagStack data\<rparr>)"

definition TokenWrapper :: "string list \<Rightarrow> tokenNote list" where
  \<comment> \<open>the \<^verbatim>\<open>notes\<close> of the result; its \<^verbatim>\<open>tokens\<close> are the argument\<close>
  "TokenWrapper tokens =
     notes' (reduceIndexed tokenWrapperStep \<lparr>notes' = [], tagStack = []\<rparr> 0 tokens)"

record wrappableTokens =
  isWrappableS :: bool    \<comment> \<open>the field \<^verbatim>\<open>isWrappable\<close> of a run of tokens\<close>
  tokens :: "string list"

record combineData =
  current :: "string list"   \<comment> \<open>the copy \<^verbatim>\<open>tokens\<close> that the callback updates in place\<close>
  list :: "wrappableTokens list"
  status :: "bool option"
  lastIndex :: nat

definition combineStep ::
  "(string \<Rightarrow> string) \<Rightarrow> tokenNote list \<Rightarrow> combineData \<Rightarrow> string \<Rightarrow> nat \<Rightarrow> combineData" where
  "combineStep tagFn ns data token index =
     (let inserted = (case at ns (int index) of Some n \<Rightarrow> insertedTag n | None \<Rightarrow> False);
          wrappableHere = (case at ns (int index) of Some n \<Rightarrow> isWrappableN n | None \<Rightarrow> False);
          toks = (if inserted then (current data)[index := tagFn (current data ! index)]
                  else current data);
          status0 = (case status data of None \<Rightarrow> wrappableHere | Some b \<Rightarrow> b);
          changed = (wrappableHere \<noteq> status0);
          list1 = (if changed
                   then list data @ [\<lparr>isWrappableS = status0,
                                      tokens = slice toks (int (lastIndex data)) (int index)\<rparr>]
                   else list data);
          lastIndex1 = (if changed then index else lastIndex data);
          status1 = (if changed then wrappableHere else status0);
          list2 = (if int index = int (length toks) - 1
                   then list1 @ [\<lparr>isWrappableS = status1,
                                   tokens = slice toks (int lastIndex1) (int index + 1)\<rparr>]
                   else list1)
      in \<lparr>current = toks, list = list2, status = Some status1, lastIndex = lastIndex1\<rparr>)"

definition combineSegments :: "(string \<Rightarrow> string) \<Rightarrow> string list \<Rightarrow> tokenNote list \<Rightarrow> wrappableTokens list" where
  \<comment> \<open>the value \<^verbatim>\<open>segments\<close> in \<open>combineTokenNotes\<close>\<close>
  "combineSegments tagFn toks ns =
     list (reduceIndexed (combineStep tagFn ns)
             \<lparr>current = toks, list = [], status = None, lastIndex = 0\<rparr> 0 toks)"

definition combineTokenNotes ::
  "(wrappableTokens \<Rightarrow> string) \<Rightarrow> (string \<Rightarrow> string) \<Rightarrow> string list \<Rightarrow> tokenNote list \<Rightarrow> string" where
  "combineTokenNotes mapFn tagFn toks ns = join (map mapFn (combineSegments tagFn toks ns)) []"

fun digits :: "nat \<Rightarrow> string" where
  \<comment> \<open>a number in a template string: its decimal digits\<close>
  "digits n = (if n < 10 then [char_of (48 + n)] else digits (n div 10) @ [char_of (48 + n mod 10)])"

declare digits.simps [simp del]

fun insertBeforeClosing :: "string \<Rightarrow> string \<Rightarrow> string" where
  \<comment> \<open>\<^verbatim>\<open>openingTag.replace(/>\s*$/, dataAttrs + '$&')\<close>\<close>
  "insertBeforeClosing dataAttrs [] = []"
| "insertBeforeClosing dataAttrs (c # cs) =
     (if c = CHR ''>'' \<and> list_all isWhitespaceChar cs then dataAttrs @ c # cs
      else c # insertBeforeClosing dataAttrs cs)"

definition wrapAttrs :: "nat \<Rightarrow> string \<Rightarrow> string \<Rightarrow> string" where
  \<comment> \<open>the value \<^verbatim>\<open>attrs\<close> in \<open>wrap\<close>; an argument that is absent reads as the empty
      string, which is falsy as well\<close>
  "wrapAttrs opIndex dataPrefix className =
     '' data-'' @ (if dataPrefix \<noteq> [] then dataPrefix @ ''-'' else [])
       @ ''operation-index=\"'' @ digits opIndex @ ''\"''
       @ (if className \<noteq> [] then '' class=\"'' @ className @ ''\"'' else [])"

definition wrapMapFn :: "string \<Rightarrow> string \<Rightarrow> wrappableTokens \<Rightarrow> string" where
  \<comment> \<open>the first callback that \<open>wrap\<close> hands to \<open>combineTokenNotes\<close>\<close>
  "wrapMapFn tg attrs seg =
     (if isWrappableS seg then
        (let val = join (tokens seg) [] in
           if trim val \<noteq> [] then ''<'' @ tg @ attrs @ ''>'' @ val @ ''</'' @ tg @ ''>''
           else [])
      else join (tokens seg) [])"

definition wrapTagFn :: "string \<Rightarrow> nat \<Rightarrow> string \<Rightarrow> string \<Rightarrow> string" where
  \<comment> \<open>the second callback\<close>
  "wrapTagFn tg opIndex dataPrefix openingTag =
     (let dataAttrs = '' data-diff-node=\"'' @ tg @ ''\"''
            @ '' data-'' @ (if dataPrefix \<noteq> [] then dataPrefix @ ''-'' else [])
            @ ''operation-index=\"'' @ digits opIndex @ ''\"''
      in if openingTag \<noteq> [] then insertBeforeClosing dataAttrs openingTag else [])"

definition wrap :: "string \<Rightarrow> string list \<Rightarrow> nat \<Rightarrow> string \<Rightarrow> string \<Rightarrow> string" where
  "wrap tg content opIndex dataPrefix className =
     combineTokenNotes (wrapMapFn tg (wrapAttrs opIndex dataPrefix className))
       (wrapTagFn tg opIndex dataPrefix) content (TokenWrapper content)"

subsection \<open>Rendering\<close>

definition opsTokens :: "token list \<Rightarrow> int \<Rightarrow> int option \<Rightarrow> token list" where
  \<comment> \<open>\<^verbatim>\<open>end ? tokens.slice(start, end + 1) : tokens.slice(start, 1)\<close>\<close>
  "opsTokens toks start stop =
     (if numberTruthy stop then slice toks start (the stop + 1) else slice toks start 1)"

definition OPS_equal :: "operation \<Rightarrow> token list \<Rightarrow> token list \<Rightarrow> nat \<Rightarrow> string \<Rightarrow> string \<Rightarrow> string" where
  "OPS_equal op bTokens aTokens opIndex dataPrefix className =
     foldl (\<lambda>prev curr. prev @ str curr) [] (opsTokens aTokens (startInAfter op) (endInAfter op))"

definition OPS_insert :: "operation \<Rightarrow> token list \<Rightarrow> token list \<Rightarrow> nat \<Rightarrow> string \<Rightarrow> string \<Rightarrow> string" where
  "OPS_insert op bTokens aTokens opIndex dataPrefix className =
     wrap ''ins'' (map str (opsTokens aTokens (startInAfter op) (endInAfter op)))
       opIndex dataPrefix className"

definition OPS_delete :: "operation \<Rightarrow> token list \<Rightarrow> token list \<Rightarrow> nat \<Rightarrow> string \<Rightarrow> string \<Rightarrow> string" where
  "OPS_delete op bTokens aTokens opIndex dataPrefix className =
     wrap ''del'' (map str (opsTokens bTokens (startInBefore op) (endInBefore op)))
       opIndex dataPrefix className"

definition OPS_replace :: "operation \<Rightarrow> token list \<Rightarrow> token list \<Rightarrow> nat \<Rightarrow> string \<Rightarrow> string \<Rightarrow> string" where
  "OPS_replace op bTokens aTokens opIndex dataPrefix className =
     OPS_delete op bTokens aTokens opIndex dataPrefix className
     @ OPS_insert op bTokens aTokens opIndex dataPrefix className"

definition OPS :: "action \<Rightarrow> operation \<Rightarrow> token list \<Rightarrow> token list \<Rightarrow> nat \<Rightarrow> string \<Rightarrow> string \<Rightarrow> string" where
  "OPS a = (case a of Equal \<Rightarrow> OPS_equal | Insert \<Rightarrow> OPS_insert
                    | Delete \<Rightarrow> OPS_delete | Replace \<Rightarrow> OPS_replace)"

definition renderOperations ::
  "token list \<Rightarrow> token list \<Rightarrow> operation list \<Rightarrow> string \<Rightarrow> string \<Rightarrow> string" where
  "renderOperations bTokens aTokens operations dataPrefix className =
     reduceIndexed
       (\<lambda>rendering op index.
          rendering @ OPS (action op) op bTokens aTokens index dataPrefix className)
       [] 0 operations"

definition diff :: "string \<Rightarrow> string \<Rightarrow> string \<Rightarrow> string \<Rightarrow> error + string" where
  \<comment> \<open>the parameters \<^verbatim>\<open>before\<close> and \<^verbatim>\<open>after\<close> are \<open>beforeHtml\<close> and \<open>afterHtml\<close>\<close>
  "diff beforeHtml afterHtml className dataPrefix =
     (if beforeHtml = afterHtml then Inr beforeHtml
      else
        (case htmlToTokens beforeHtml of
           Inl e \<Rightarrow> Inl e
         | Inr bTokens \<Rightarrow>
        (case htmlToTokens afterHtml of
           Inl e \<Rightarrow> Inl e
         | Inr aTokens \<Rightarrow>
        (case calculateOperations (Some bTokens) (Some aTokens) of
           Inl e \<Rightarrow> Inl e
         | Inr ops \<Rightarrow> Inr (renderOperations bTokens aTokens ops dataPrefix className)))))"

subsection \<open>The matches of two token lists\<close>

definition matchingBlocks :: "token list \<Rightarrow> token list \<Rightarrow> error + match list" where
  \<comment> \<open>the value \<^verbatim>\<open>matches\<close> in \<open>calculateOperations\<close>, before the closing match is pushed\<close>
  "matchingBlocks bs as =
     (case createSegment bs as 0 0 of Inl e \<Rightarrow> Inl e | Inr seg \<Rightarrow> findMatchingBlocks seg)"

definition matchRange :: "match \<Rightarrow> int \<times> int \<times> int \<times> int \<times> int" where
  \<comment> \<open>start and end in before, start and end in after, length\<close>
  "matchRange m =
     (match.startInBefore m, match.endInBefore m, match.startInAfter m, match.endInAfter m,
      length' m)"

subsection \<open>The ranges of a list of operations\<close>

text \<open>
  Equal, delete and replace operations have a before side; equal, insert and replace
  operations have an after side. A list of ranges tiles \<open>[p, n)\<close> when the ranges, in
  order, are not empty, each has its end, the first starts at \<open>p\<close>, each next one starts
  right after the one before, and the last ends at \<open>n - 1\<close>.
\<close>

definition hasBeforeSide :: "operation \<Rightarrow> bool" where
  "hasBeforeSide op \<longleftrightarrow> action op = Equal \<or> action op = Delete \<or> action op = Replace"

definition hasAfterSide :: "operation \<Rightarrow> bool" where
  "hasAfterSide op \<longleftrightarrow> action op = Equal \<or> action op = Insert \<or> action op = Replace"

definition beforeRanges :: "operation list \<Rightarrow> (int \<times> int option) list" where
  "beforeRanges ops = map (\<lambda>op. (startInBefore op, endInBefore op)) (filter hasBeforeSide ops)"

definition afterRanges :: "operation list \<Rightarrow> (int \<times> int option) list" where
  "afterRanges ops = map (\<lambda>op. (startInAfter op, endInAfter op)) (filter hasAfterSide ops)"

fun tiles :: "int \<Rightarrow> (int \<times> int option) list \<Rightarrow> int \<Rightarrow> bool" where
  "tiles p [] n = (p = n)"
| "tiles p ((s, e) # rs) n =
     (case e of None \<Rightarrow> False | Some e' \<Rightarrow> s = p \<and> s \<le> e' \<and> tiles (e' + 1) rs n)"

definition rangeTokens :: "token list \<Rightarrow> int \<times> int option \<Rightarrow> token list" where
  "rangeTokens toks r = (case snd r of None \<Rightarrow> [] | Some e \<Rightarrow> slice toks (fst r) (e + 1))"

definition rangesText :: "token list \<Rightarrow> (int \<times> int option) list \<Rightarrow> string" where
  "rangesText toks rs = concat (map str (concat (map (rangeTokens toks) rs)))"


subsection \<open>The runs of a token list\<close>

text \<open>
  The maximal runs of a list of tokens flagged wrappable or not: a token extends the last
  run when its flag is the flag of that run, and starts a new run otherwise. The tokens are
  taken after \<open>tagFn\<close> has been applied to those whose note says \<open>insertedTag\<close>.
\<close>

definition addToRuns :: "wrappableTokens list \<Rightarrow> bool \<times> string \<Rightarrow> wrappableTokens list" where
  "addToRuns rs z =
     (if rs \<noteq> [] \<and> isWrappableS (last rs) = fst z
      then butlast rs @ [\<lparr>isWrappableS = fst z, tokens = tokens (last rs) @ [snd z]\<rparr>]
      else rs @ [\<lparr>isWrappableS = fst z, tokens = [snd z]\<rparr>])"

definition runs :: "(bool \<times> string) list \<Rightarrow> wrappableTokens list" where
  "runs zs = foldl addToRuns [] zs"

definition markedTokens :: "(string \<Rightarrow> string) \<Rightarrow> tokenNote list \<Rightarrow> string list \<Rightarrow> string list" where
  "markedTokens tagFn ns toks =
     map (\<lambda>(n, t). if insertedTag n then tagFn t else t) (zip ns toks)"


subsection \<open>The tokenizer returns\<close>

definition validMode :: "string \<Rightarrow> bool" where
  "validMode m \<longleftrightarrow>
     m \<in> set [''tag'', ''atomic_tag'', ''html_comment'', ''char'', ''entity'', ''whitespace'']"

definition scanOk :: "scanner \<Rightarrow> bool" where
  "scanOk s \<longleftrightarrow> 0 \<le> charIdx s \<and> validMode (mode s)"

text \<open>An invariant that every turn of the loop keeps holds when the loop is left.\<close>

lemma scanLoop_invariant:
  "(\<And>t. P t \<Longrightarrow> charIdx t < int (length u) \<Longrightarrow> \<exists>t'. scanStep u t = Inr t' \<and> P t')
   \<Longrightarrow> P s \<Longrightarrow> \<exists>s'. scanLoop u s = Inr s' \<and> P s' \<and> \<not> charIdx s' < int (length u)"
proof (induction u s rule: scanLoop.induct)
  case (1 u s)
  show ?case
  proof (cases "charIdx s < int (length u)")
    case False
    with 1(3) show ?thesis by (simp add: scanLoop.simps)
  next
    case True
    with 1(2,3) obtain s1 where s1: "scanStep u s = Inr s1" "P s1" by blast
    from 1(1)[OF True s1(1) 1(2) s1(2)]
    obtain s' where "scanLoop u s1 = Inr s'" "P s'" "\<not> charIdx s' < int (length u)" by blast
    with True s1 show ?thesis by (simp add: scanLoop.simps)
  qed
qed

lemma scanStep_scanOk:
  assumes "scanOk s"
  shows "\<exists>s'. scanStep u s = Inr s' \<and> scanOk s'"
  using assms
  unfolding scanOk_def validMode_def scanStep_def Let_def tagCase_def atomicTagCase_def
    htmlCommentCase_def charCase_def entityCase_def whitespaceCase_def
  by (auto split: option.splits)

subsection \<open>The tokenizer loses no character outside comments\<close>

text \<open>
  A string contains an HTML comment when it holds the opener \<^verbatim>\<open><!--\<close> and, at least one
  character later, the text from the opener on ends in \<^verbatim>\<open>-->\<close>. A string with an opener
  that is never closed contains no comment.
\<close>

definition closesComment :: "string \<Rightarrow> bool" where
  "closesComment r \<longleftrightarrow> (\<exists>p \<in> set (prefixes r). p \<noteq> [] \<and> suffix ''-->'' (''<!--'' @ p))"

fun containsHTMLComment :: "string \<Rightarrow> bool" where
  "containsHTMLComment [] = False"
| "containsHTMLComment (c # cs) =
     ((prefix ''<!--'' (c # cs) \<and> closesComment (drop 3 cs)) \<or> containsHTMLComment cs)"

lemma containsHTMLComment_append:
  "p \<noteq> [] \<Longrightarrow> suffix ''-->'' (''<!--'' @ p) \<Longrightarrow> containsHTMLComment (u @ ''<!--'' @ p @ w)"
proof (induction u)
  case Nil
  have "p \<in> set (prefixes (p @ w))" by (simp add: in_set_prefixes)
  with Nil show ?case by (auto simp: closesComment_def)
next
  case (Cons a u)
  then show ?case by simp
qed

definition lossless :: "string \<Rightarrow> scanner \<Rightarrow> bool" where
  "lossless html s \<longleftrightarrow>
     scanOk s \<and> charIdx s \<le> int (length html) \<and>
     concat (map str (words s)) @ currentWord s = take (nat (charIdx s)) html \<and>
     (mode s = ''html_comment'' \<longrightarrow> prefix ''<!--'' (currentWord s) \<and> currentWord s \<noteq> ''<!--'')"

lemma str_pushCurrentWord:
  "concat (map str (pushCurrentWord s)) = concat (map str (words s)) @ currentWord s"
  by (simp add: pushCurrentWord_def createToken_def)

lemma take_next:
  "0 \<le> i \<Longrightarrow> i < int (length html) \<Longrightarrow>
   take (nat (i + 1)) html = take (nat i) html @ [html ! nat i]"
  by (simp add: nat_add_distrib take_Suc_conv_app_nth)

lemma comment_never_closed:
  assumes "\<not> containsHTMLComment html"
      and "w @ cw = take n html" and "n < length html"
      and "prefix ''<!--'' cw"
  shows "\<not> suffix ''-->'' (cw @ [html ! n])"
proof
  assume suf: "suffix ''-->'' (cw @ [html ! n])"
  from assms(4) obtain q where q: "cw = ''<!--'' @ q" by (auto simp: prefix_def)
  have "html = take n html @ [html ! n] @ drop (Suc n) html"
    using assms(3) by (simp add: Cons_nth_drop_Suc)
  then have "html = w @ ''<!--'' @ (q @ [html ! n]) @ drop (Suc n) html"
    using assms(2) q by (metis append.assoc)
  moreover have "containsHTMLComment (w @ ''<!--'' @ (q @ [html ! n]) @ drop (Suc n) html)"
    by (rule containsHTMLComment_append) (use suf q in auto)
  ultimately show False using assms(1) by simp
qed

lemma scanStep_lossless:
  assumes nc: "\<not> containsHTMLComment html"
      and inv: "lossless html s" and lt: "charIdx s < int (length html)"
  shows "\<exists>s'. scanStep html s = Inr s' \<and> lossless html s'"
proof -
  let ?c = "html ! nat (charIdx s)"
  from inv have i0: "0 \<le> charIdx s" and vm: "validMode (mode s)"
    and eq: "concat (map str (words s)) @ currentWord s = take (nat (charIdx s)) html"
    and cm: "mode s = ''html_comment'' \<Longrightarrow> prefix ''<!--'' (currentWord s)"
    by (auto simp: lossless_def scanOk_def)
  have tk: "take (nat (charIdx s + 1)) html = concat (map str (words s)) @ currentWord s @ [?c]"
    using take_next[OF i0 lt] eq by simp
  have nclose: "mode s = ''html_comment'' \<Longrightarrow> \<not> isEndOfHTMLComment (currentWord s @ [?c])"
    unfolding isEndOfHTMLComment_def
    using comment_never_closed[OF nc eq _ cm] lt i0 by simp
  have gt: "isEndOfTag ?c \<Longrightarrow> ''>'' = [?c]" by (simp add: isEndOfTag_def)
  have lt': "isStartOfTag ?c \<Longrightarrow> ''<'' = [?c]" by (simp add: isStartOfTag_def)
  from vm consider "mode s = ''tag''" | "mode s = ''atomic_tag''" | "mode s = ''html_comment''"
    | "mode s = ''char''" | "mode s = ''entity''" | "mode s = ''whitespace''"
    by (auto simp: validMode_def)
  then show ?thesis
  proof cases
    case 1
    then show ?thesis using i0 lt tk eq gt
      by (auto simp: scanStep_def Let_def tagCase_def lossless_def scanOk_def validMode_def
          createToken_def isStartOfHTMLComment_def prefix_def split: option.splits)
  next
    case 2
    then show ?thesis using i0 lt tk eq gt
      by (auto simp: scanStep_def Let_def atomicTagCase_def lossless_def scanOk_def validMode_def
          createToken_def)
  next
    case 3
    then show ?thesis using i0 lt tk eq nclose cm
      by (auto simp: scanStep_def Let_def htmlCommentCase_def lossless_def scanOk_def validMode_def
          prefix_def)
  next
    case 4
    then show ?thesis using i0 lt tk eq lt'
      by (auto simp: scanStep_def Let_def charCase_def lossless_def scanOk_def validMode_def
          createToken_def str_pushCurrentWord)
  next
    case 5
    then show ?thesis using i0 lt tk eq
      by (auto simp: scanStep_def Let_def entityCase_def lossless_def scanOk_def validMode_def
          createToken_def)
  next
    case 6
    then show ?thesis using i0 lt tk eq lt'
      by (auto simp: scanStep_def Let_def whitespaceCase_def lossless_def scanOk_def validMode_def
          createToken_def str_pushCurrentWord)
  qed
qed


subsection \<open>The matches are in range and in order\<close>

text \<open>
  Every segment on the work list lies inside the two token lists, so every match does; and
  the tree keeps its matches in order on both sides, whatever is added to it.
\<close>

definition segmentWithin :: "int \<Rightarrow> int \<Rightarrow> segment \<Rightarrow> bool" where
  "segmentWithin nb na s \<longleftrightarrow>
     0 \<le> beforeIndex s \<and> 0 \<le> afterIndex s \<and>
     beforeIndex s + int (length (beforeTokens s)) \<le> nb \<and>
     afterIndex s + int (length (afterTokens s)) \<le> na"

definition globalMatch :: "int \<Rightarrow> int \<Rightarrow> match \<Rightarrow> bool" where
  "globalMatch nb na m \<longleftrightarrow>
     1 \<le> length' m \<and> 0 \<le> match.startInBefore m \<and> 0 \<le> match.startInAfter m \<and>
     match.endInBefore m = match.startInBefore m + length' m - 1 \<and>
     match.endInAfter m = match.startInAfter m + length' m - 1 \<and>
     match.endInBefore m < nb \<and> match.endInAfter m < na"

definition precedes :: "match \<Rightarrow> match \<Rightarrow> bool" where
  "precedes x y \<longleftrightarrow>
     match.endInBefore x < match.startInBefore y \<and> match.endInAfter x < match.startInAfter y"

fun ordered :: "treeNode \<Rightarrow> bool" where
  "ordered Null = True"
| "ordered (TreeNode v l r) =
     (ordered l \<and> ordered r \<and> list_all (\<lambda>x. precedes x v) (nodeToArray l)
      \<and> list_all (\<lambda>y. precedes v y) (nodeToArray r))"

lemma localMatch_fields:
  assumes "localMatch s m"
  shows "match.startInBefore m = segmentStartInBefore m + beforeIndex s"
    "match.startInAfter m = segmentStartInAfter m + afterIndex s"
    "match.endInBefore m = segmentStartInBefore m + beforeIndex s + length' m - 1"
    "match.endInAfter m = segmentStartInAfter m + afterIndex s + length' m - 1"
    "segmentEndInBefore m = segmentStartInBefore m + length' m - 1"
    "segmentEndInAfter m = segmentStartInAfter m + length' m - 1"
proof -
  from assms have "m = makeMatch (segmentStartInBefore m) (segmentStartInAfter m) (length' m) s"
    by (simp add: localMatch_def)
  then have e: "match.startInBefore m = match.startInBefore (makeMatch (segmentStartInBefore m) (segmentStartInAfter m) (length' m) s)"
    "match.startInAfter m = match.startInAfter (makeMatch (segmentStartInBefore m) (segmentStartInAfter m) (length' m) s)"
    "match.endInBefore m = match.endInBefore (makeMatch (segmentStartInBefore m) (segmentStartInAfter m) (length' m) s)"
    "match.endInAfter m = match.endInAfter (makeMatch (segmentStartInBefore m) (segmentStartInAfter m) (length' m) s)"
    "segmentEndInBefore m = segmentEndInBefore (makeMatch (segmentStartInBefore m) (segmentStartInAfter m) (length' m) s)"
    "segmentEndInAfter m = segmentEndInAfter (makeMatch (segmentStartInBefore m) (segmentStartInAfter m) (length' m) s)"
    by simp_all
  show "match.startInBefore m = segmentStartInBefore m + beforeIndex s"
    "match.startInAfter m = segmentStartInAfter m + afterIndex s"
    "match.endInBefore m = segmentStartInBefore m + beforeIndex s + length' m - 1"
    "match.endInAfter m = segmentStartInAfter m + afterIndex s + length' m - 1"
    "segmentEndInBefore m = segmentStartInBefore m + length' m - 1"
    "segmentEndInAfter m = segmentStartInAfter m + length' m - 1"
    using e by (simp_all add: makeMatch_def)
qed

lemma globalMatch_local:
  "segmentWithin nb na s \<Longrightarrow> localMatch s m \<Longrightarrow> globalMatch nb na m"
  using localMatch_fields[of s m]
  by (auto simp: globalMatch_def segmentWithin_def localMatch_def)

lemma leftSegment_within:
  assumes "segmentWithin nb na cur" "localMatch cur m" "leftSegment root cur m = Inr l"
  shows "list_all (segmentWithin nb na) l"
proof (cases "segmentStartInBefore m > 0 \<and> segmentStartInAfter m > 0")
  case False
  with assms(3) show ?thesis by (auto simp: leftSegment_def)
next
  case True
  with assms(3) obtain s where s: "l = [s]"
    "createSegment (slice (beforeTokens root) 0 (segmentStartInBefore m))
       (slice (afterTokens cur) 0 (segmentStartInAfter m)) (beforeIndex cur) (afterIndex cur) = Inr s"
    by (auto simp: leftSegment_def split: sum.splits)
  from createSegment_tokens[OF s(2)] True assms(1,2)
    length_slice0[of "segmentStartInBefore m" "beforeTokens root"]
    length_slice0[of "segmentStartInAfter m" "afterTokens cur"]
  show ?thesis using s(1) by (auto simp: segmentWithin_def localMatch_def)
qed

lemma rightSegment_within:
  assumes "segmentWithin nb na cur" "localMatch cur m" "rightSegment cur m = Inr r"
  shows "list_all (segmentWithin nb na) r"
proof (cases "r = []")
  case True
  then show ?thesis by simp
next
  case False
  let ?eb = "segmentEndInBefore m + 1" and ?ea = "segmentEndInAfter m + 1"
  from False assms(3) obtain s where s: "r = [s]"
    "createSegment (sliceFrom (beforeTokens cur) ?eb) (sliceFrom (afterTokens cur) ?ea)
       (beforeIndex cur + segmentEndInBefore m + 1) (afterIndex cur + segmentEndInAfter m + 1) = Inr s"
    by (auto simp: rightSegment_def Let_def split: sum.splits if_splits)
  have e: "?eb = segmentStartInBefore m + length' m" "?ea = segmentStartInAfter m + length' m"
    using localMatch_fields[OF assms(2)] by auto
  from assms(2) have b: "0 \<le> ?eb" "0 \<le> ?ea" "?eb \<le> int (length (beforeTokens cur))"
    "?ea \<le> int (length (afterTokens cur))"
    unfolding e by (auto simp: localMatch_def)
  from createSegment_tokens[OF s(2)] assms(1) b
    length_sliceFrom[of ?eb "beforeTokens cur"] length_sliceFrom[of ?ea "afterTokens cur"]
  show ?thesis using s(1) by (auto simp: segmentWithin_def)
qed

lemma compareMatches_precedes:
  "compareMatches v m = - 1 \<longleftrightarrow> precedes m v"
  "compareMatches v m = 1 \<longleftrightarrow> \<not> precedes m v \<and> precedes v m"
  by (auto simp: compareMatches_def precedes_def)

lemma set_addToNode:
  "set (nodeToArray (addToNode t m)) \<subseteq> insert m (set (nodeToArray t))"
  by (induction t) (auto simp: Let_def)

lemma ordered_addToNode: "ordered t \<Longrightarrow> ordered (addToNode t m)"
proof (induction t)
  case Null
  then show ?case by simp
next
  case (TreeNode v l r)
  have l: "compareMatches v m = - 1 \<Longrightarrow> list_all (\<lambda>x. precedes x v) (nodeToArray (addToNode l m))"
    using TreeNode.prems set_addToNode[of l m]
    by (auto simp: list_all_iff compareMatches_precedes)
  have r: "compareMatches v m = 1 \<Longrightarrow> list_all (\<lambda>y. precedes v y) (nodeToArray (addToNode r m))"
    using TreeNode.prems set_addToNode[of r m]
    by (auto simp: list_all_iff compareMatches_precedes)
  show ?case using TreeNode l r by (auto simp: Let_def)
qed

lemma sorted_nodeToArray:
  "ordered t \<Longrightarrow> list_all (\<lambda>x. 1 \<le> length' x \<and> match.endInBefore x = match.startInBefore x + length' x - 1
       \<and> match.endInAfter x = match.startInAfter x + length' x - 1) (nodeToArray t)
   \<Longrightarrow> sorted_wrt precedes (nodeToArray t)"
proof (induction t)
  case Null
  then show ?case by simp
next
  case (TreeNode v l r)
  have "precedes x y" if "x \<in> set (nodeToArray l)" "y \<in> set (nodeToArray r)" for x y
  proof -
    from that TreeNode.prems(1) have "precedes x v" "precedes v y" by (auto simp: list_all_iff)
    moreover from TreeNode.prems(2) have "match.startInBefore v \<le> match.endInBefore v"
      "match.startInAfter v \<le> match.endInAfter v" by auto
    ultimately show ?thesis by (auto simp: precedes_def)
  qed
  with TreeNode show ?case by (auto simp: sorted_wrt_append list_all_iff)
qed

lemma findMatchingBlocksLoop_invariant:
  "list_all (segmentWithin nb na) segs \<Longrightarrow> ordered t \<Longrightarrow> list_all (globalMatch nb na) (nodeToArray t)
   \<Longrightarrow> findMatchingBlocksLoop root segs t = Inr t'
   \<Longrightarrow> ordered t' \<and> list_all (globalMatch nb na) (nodeToArray t')"
proof (induction root segs t rule: findMatchingBlocksLoop.induct)
  case (1 root matches)
  then show ?case by (simp add: findMatchingBlocksLoop.simps)
next
  case (2 root cur segments matches)
  note IH = "2.IH" and res = "2.prems"(4)
  from "2.prems"(1) have cw: "segmentWithin nb na cur" and sw: "list_all (segmentWithin nb na) segments"
    by auto
  show ?case
  proof (cases "findBestMatch cur")
    case (Inl e)
    with res show ?thesis by (simp add: findMatchingBlocksLoop.simps)
  next
    case (Inr best)
    show ?thesis
    proof (cases best)
      case None
      with Inr res have "findMatchingBlocksLoop root segments matches = Inr t'"
        by (simp add: findMatchingBlocksLoop.simps)
      from IH(1)[OF Inr None sw "2.prems"(2,3) this] show ?thesis .
    next
      case (Some m)
      from Inr Some have lm: "localMatch cur m" by (simp add: findBestMatch_local)
      then have len: "length' m \<noteq> 0" by (auto simp: localMatch_def)
      from Inr Some res len obtain l r where
        l: "leftSegment root cur m = Inr l" and r: "rightSegment cur m = Inr r" and
        rec: "findMatchingBlocksLoop root (r @ l @ segments) (addToNode matches m) = Inr t'"
        by (auto simp: findMatchingBlocksLoop.simps split: sum.splits)
      have w: "list_all (segmentWithin nb na) (r @ l @ segments)"
        using leftSegment_within[OF cw lm l] rightSegment_within[OF cw lm r] sw by simp
      have o: "ordered (addToNode matches m)" by (rule ordered_addToNode[OF "2.prems"(2)])
      have g: "list_all (globalMatch nb na) (nodeToArray (addToNode matches m))"
        using set_addToNode[of matches m] "2.prems"(3) globalMatch_local[OF cw lm]
        by (auto simp: list_all_iff)
      from IH(2)[OF Inr Some len l r w o g rec] show ?thesis .
    qed
  qed
qed

lemma findMatchingBlocks_sorted:
  assumes "segmentWithin nb na seg" "findMatchingBlocks seg = Inr ms"
  shows "sorted_wrt precedes ms \<and> list_all (globalMatch nb na) ms"
proof -
  from assms(2) obtain t where t: "findMatchingBlocksLoop seg [seg] Null = Inr t" "ms = nodeToArray t"
    by (auto simp: findMatchingBlocks_def split: sum.splits)
  from findMatchingBlocksLoop_invariant[of nb na "[seg]" Null seg t] assms(1) t(1)
  have "ordered t" "list_all (globalMatch nb na) (nodeToArray t)" by auto
  with sorted_nodeToArray[of t] t(2) show ?thesis by (auto simp: list_all_iff globalMatch_def)
qed

subsection \<open>The operations tile both token lists\<close>

text \<open>
  The second pass of \<open>calculateOperations\<close> drops nothing from what the first pass
  produces: \<open>isSingleWhitespace\<close> is never true, and between two operations that fill a
  gap there is the equal operation of a match.
\<close>

lemma singleWhitespace_arrayToString: "\<not> singleWhitespace (arrayToString ts)"
proof (cases ts)
  case Nil
  then show ?thesis by (simp add: singleWhitespace_def arrayToString_def)
next
  case (Cons t r)
  then show ?thesis
    by (cases r) (simp_all add: singleWhitespace_def arrayToString_def)
qed

lemma isSingleWhitespace_never: "\<not> isSingleWhitespace bs op"
  by (simp add: isSingleWhitespace_def singleWhitespace_arrayToString)

lemma postProcess_operationsFrom:
  "lastOp \<noteq> Some Replace \<Longrightarrow> list_all (\<lambda>m. length' m \<noteq> 0) ms \<Longrightarrow>
   postProcess bs lastOp (operationsFrom pb pa (ms @ [z])) = operationsFrom pb pa (ms @ [z])"
proof (induction ms arbitrary: pb pa lastOp)
  case Nil
  then show ?case by (auto simp: Let_def isSingleWhitespace_never)
next
  case (Cons m ms)
  have rest: "postProcess bs (Some Equal)
                (operationsFrom (match.endInBefore m + 1) (match.endInAfter m + 1) (ms @ [z]))
              = operationsFrom (match.endInBefore m + 1) (match.endInAfter m + 1) (ms @ [z])"
    using Cons.IH[of "Some Equal"] Cons.prems(2) by simp
  from Cons.prems show ?case
    by (auto simp: Let_def isSingleWhitespace_never rest)
qed

lemma tiles_le: "tiles p rs n \<Longrightarrow> p \<le> n"
  by (induction p rs n rule: tiles.induct) (auto split: option.splits)

lemma slice_nonneg:
  "0 \<le> a \<Longrightarrow> 0 \<le> b \<Longrightarrow> b \<le> int (length xs) \<Longrightarrow>
   slice xs a b = take (nat b - nat a) (drop (nat a) xs)"
  by (auto simp: slice_def relativeIndex_def Let_def min_def)

lemma slice_append:
  assumes "0 \<le> a" "a \<le> b" "b \<le> c" "c \<le> int (length xs)"
  shows "slice xs a b @ slice xs b c = slice xs a c"
proof -
  have "take (nat b - nat a) (drop (nat a) xs) @ take (nat c - nat b) (drop (nat b) xs)
        = take (nat c - nat a) (drop (nat a) xs)"
  proof -
    have "take (nat c - nat a) (drop (nat a) xs)
          = take ((nat b - nat a) + (nat c - nat b)) (drop (nat a) xs)"
      using assms by (simp add: nat_le_eq_zle)
    also have "\<dots> = take (nat b - nat a) (drop (nat a) xs)
                   @ take (nat c - nat b) (drop (nat b - nat a) (drop (nat a) xs))"
      by (simp add: take_add)
    also have "drop (nat b - nat a) (drop (nat a) xs) = drop (nat b) xs"
      using assms by (simp add: nat_le_eq_zle)
    finally show ?thesis by simp
  qed
  then show ?thesis using assms by (simp add: slice_nonneg)
qed

lemma tiles_tokens:
  "0 \<le> p \<Longrightarrow> tiles p rs n \<Longrightarrow> n \<le> int (length xs) \<Longrightarrow>
   concat (map (rangeTokens xs) rs) = slice xs p n"
proof (induction p rs n rule: tiles.induct)
  case (1 p n)
  then show ?case by (simp add: slice_nonneg)
next
  case (2 p s e rs n)
  from "2.prems"(2) obtain e' where e: "e = Some e'" "s = p" "s \<le> e'" "tiles (e' + 1) rs n"
    by (auto split: option.splits)
  from tiles_le[OF e(4)] have le: "e' + 1 \<le> n" .
  have "concat (map (rangeTokens xs) rs) = slice xs (e' + 1) n"
    using "2.IH"[OF e(1)] e "2.prems" by simp
  moreover have "rangeTokens xs (s, e) = slice xs p (e' + 1)"
    using e by (simp add: rangeTokens_def)
  ultimately show ?case using e le "2.prems" slice_append[of p "e' + 1" n xs]
    by simp
qed

lemma slice_all: "slice xs 0 (int (length xs)) = xs"
  by (simp add: slice_nonneg)

lemma operationsFrom_tiles_before:
  "list_all (globalMatch nb na) ms \<Longrightarrow> sorted_wrt precedes ms \<Longrightarrow>
   list_all (\<lambda>m. pb \<le> match.startInBefore m) ms \<Longrightarrow> pb \<le> nb \<Longrightarrow>
   match.startInBefore z = nb \<Longrightarrow> length' z = 0 \<Longrightarrow>
   tiles pb (beforeRanges (operationsFrom pb pa (ms @ [z]))) nb"
proof (induction ms arbitrary: pb pa)
  case Nil
  then show ?case by (auto simp: Let_def beforeRanges_def hasBeforeSide_def)
next
  case (Cons m ms)
  from Cons.prems(1) have g: "1 \<le> length' m"
    "match.endInBefore m = match.startInBefore m + length' m - 1" "match.endInBefore m < nb"
    by (auto simp: globalMatch_def)
  have nxt: "list_all (\<lambda>x. match.endInBefore m + 1 \<le> match.startInBefore x) ms"
    using Cons.prems(2) by (auto simp: list_all_iff precedes_def)
  have rest: "tiles (match.endInBefore m + 1)
                (beforeRanges (operationsFrom (match.endInBefore m + 1) (match.endInAfter m + 1) (ms @ [z]))) nb"
    using Cons.IH[OF _ _ nxt] Cons.prems g by auto
  from Cons.prems(3) have "pb \<le> match.startInBefore m" by simp
  with g rest show ?case
    by (auto simp: Let_def beforeRanges_def hasBeforeSide_def)
qed

lemma operationsFrom_tiles_after:
  "list_all (globalMatch nb na) ms \<Longrightarrow> sorted_wrt precedes ms \<Longrightarrow>
   list_all (\<lambda>m. pa \<le> match.startInAfter m) ms \<Longrightarrow> pa \<le> na \<Longrightarrow>
   match.startInAfter z = na \<Longrightarrow> length' z = 0 \<Longrightarrow>
   tiles pa (afterRanges (operationsFrom pb pa (ms @ [z]))) na"
proof (induction ms arbitrary: pb pa)
  case Nil
  then show ?case by (auto simp: Let_def afterRanges_def hasAfterSide_def)
next
  case (Cons m ms)
  from Cons.prems(1) have g: "1 \<le> length' m"
    "match.endInAfter m = match.startInAfter m + length' m - 1" "match.endInAfter m < na"
    by (auto simp: globalMatch_def)
  have nxt: "list_all (\<lambda>x. match.endInAfter m + 1 \<le> match.startInAfter x) ms"
    using Cons.prems(2) by (auto simp: list_all_iff precedes_def)
  have rest: "tiles (match.endInAfter m + 1)
                (afterRanges (operationsFrom (match.endInBefore m + 1) (match.endInAfter m + 1) (ms @ [z]))) na"
    using Cons.IH[OF _ _ nxt] Cons.prems g by auto
  from Cons.prems(3) have "pa \<le> match.startInAfter m" by simp
  with g rest show ?case
    by (auto simp: Let_def afterRanges_def hasAfterSide_def)
qed

lemma calculateOperations_result:
  assumes "calculateOperations (Some bs) (Some as) = Inr ops"
  shows "\<exists>seg ms. createSegment bs as 0 0 = Inr seg \<and> findMatchingBlocks seg = Inr ms \<and>
           ops = operationsFrom 0 0 (ms @ [makeMatch (int (length bs)) (int (length as)) 0 seg]) \<and>
           sorted_wrt precedes ms \<and>
           list_all (globalMatch (int (length bs)) (int (length as))) ms"
proof -
  from assms obtain seg ms where seg: "createSegment bs as 0 0 = Inr seg"
    and ms: "findMatchingBlocks seg = Inr ms"
    and ops: "ops = postProcess bs None
                (operationsFrom 0 0 (ms @ [makeMatch (int (length bs)) (int (length as)) 0 seg]))"
    by (auto simp: calculateOperations_def split: sum.splits)
  from createSegment_tokens[OF seg]
  have "segmentWithin (int (length bs)) (int (length as)) seg" by (simp add: segmentWithin_def)
  from findMatchingBlocks_sorted[OF this ms]
  have s: "sorted_wrt precedes ms" "list_all (globalMatch (int (length bs)) (int (length as))) ms"
    by auto
  then have "list_all (\<lambda>m. length' m \<noteq> 0) ms" by (auto simp: list_all_iff globalMatch_def)
  with ops have "ops = operationsFrom 0 0 (ms @ [makeMatch (int (length bs)) (int (length as)) 0 seg])"
    by (simp add: postProcess_operationsFrom)
  with seg ms s show ?thesis by blast
qed


subsection \<open>When \<open>calculateOperations\<close> raises\<close>

text \<open>
  The call returns operations exactly when both token lists are present and no token has a
  key that names a property of \<^verbatim>\<open>Object.prototype\<close>; otherwise it raises one of the two
  missing-tokens errors or, with both lists present, a \<^verbatim>\<open>TypeError\<close>.
\<close>

definition plainKeys :: "token list \<Rightarrow> bool" where
  "plainKeys ts \<longleftrightarrow> list_all (\<lambda>t. key t \<notin> set objectPrototype) ts"

definition plainObject :: "object \<Rightarrow> bool" where
  \<comment> \<open>exactly the properties of the prototype are inherited\<close>
  "plainObject m \<longleftrightarrow> (\<forall>k. m k = Some Inherited \<longleftrightarrow> k \<in> set objectPrototype)"

lemma plainObject_empty: "plainObject emptyObject"
  by (simp add: plainObject_def emptyObject_def)

lemma plainObject_update:
  "plainObject m \<Longrightarrow> k \<notin> set objectPrototype \<Longrightarrow> plainObject (m(k \<mapsto> Indices is))"
  by (auto simp: plainObject_def)

lemma createMapFrom_plain:
  "plainObject m \<Longrightarrow>
   (case createMapFrom m i ts of
      Inl e \<Rightarrow> e = TypeError \<and> \<not> plainKeys ts
    | Inr m' \<Rightarrow> plainKeys ts \<and> plainObject m')"
proof (induction ts arbitrary: m i)
  case Nil
  then show ?case by (simp add: plainKeys_def)
next
  case (Cons t ts)
  show ?case
  proof (cases "key t \<in> set objectPrototype")
    case True
    with Cons.prems have "m (key t) = Some Inherited" by (simp add: plainObject_def)
    with True show ?thesis by (simp add: plainKeys_def)
  next
    case False
    with Cons.prems have ni: "m (key t) \<noteq> Some Inherited" by (simp add: plainObject_def)
    have pk: "plainKeys (t # ts) = plainKeys ts" using False by (simp add: plainKeys_def)
    show ?thesis
    proof (cases "m (key t)")
      case None
      let ?m = "m(key t \<mapsto> Indices [i])"
      have step: "createMapFrom m i (t # ts) = createMapFrom ?m (Suc i) ts"
        using None by simp
      show ?thesis unfolding step pk
        by (rule Cons.IH[OF plainObject_update[OF Cons.prems False]])
    next
      case (Some p)
      with ni obtain js where p: "p = Indices js" by (cases p) auto
      let ?m = "m(key t \<mapsto> Indices (js @ [i]))"
      have step: "createMapFrom m i (t # ts) = createMapFrom ?m (Suc i) ts"
        using Some p by simp
      show ?thesis unfolding step pk
        by (rule Cons.IH[OF plainObject_update[OF Cons.prems False]])
    qed
  qed
qed

lemma createMap_plain:
  "(case createMap ts of
      Inl e \<Rightarrow> e = TypeError \<and> \<not> plainKeys ts
    | Inr m' \<Rightarrow> plainKeys ts \<and> plainObject m')"
  unfolding createMap_def by (rule createMapFrom_plain[OF plainObject_empty])

definition plainSegment :: "segment \<Rightarrow> bool" where
  "plainSegment s \<longleftrightarrow> plainKeys (beforeTokens s) \<and> plainKeys (afterTokens s) \<and> plainObject (afterMap s)"

lemma createSegment_plain:
  "(case createSegment bs as bi ai of
      Inl e \<Rightarrow> e = TypeError \<and> \<not> (plainKeys bs \<and> plainKeys as)
    | Inr s \<Rightarrow> plainKeys bs \<and> plainKeys as \<and> plainSegment s)"
  using createMap_plain[of bs] createMap_plain[of as]
  by (auto simp: createSegment_def plainSegment_def split: sum.splits)

lemma findBestMatchFrom_plain:
  "plainSegment seg \<Longrightarrow> \<exists>r. findBestMatchFrom seg i lastSpace best = Inr r"
proof (induction seg i lastSpace best rule: findBestMatchFrom.induct)
  case (1 seg i lastSpace bestMatch)
  let ?t = "beforeTokens seg ! i"
  show ?case
  proof (cases "i < length (beforeTokens seg)")
    case False
    then show ?thesis by (subst findBestMatchFrom.simps) simp
  next
    case True
    with "1.prems" have "key ?t \<notin> set objectPrototype"
      by (auto simp: plainSegment_def plainKeys_def list_all_length)
    with "1.prems" have ni: "afterMap seg (key ?t) \<noteq> Some Inherited"
      by (simp add: plainSegment_def plainObject_def)
    show ?thesis
      apply (subst findBestMatchFrom.simps)
      using "1.IH" "1.prems" ni True
      by (auto simp: Let_def split: option.splits property.splits)
  qed
qed

lemma plainKeys_slice: "plainKeys xs \<Longrightarrow> plainKeys (slice xs a b)"
  by (auto simp: plainKeys_def slice_def Let_def list_all_iff dest!: in_set_takeD in_set_dropD)

lemma plainKeys_sliceFrom: "plainKeys xs \<Longrightarrow> plainKeys (sliceFrom xs a)"
  by (auto simp: plainKeys_def sliceFrom_def list_all_iff dest!: in_set_dropD)

lemma leftSegment_plain:
  assumes "plainSegment root" "plainSegment cur"
  shows "\<exists>l. leftSegment root cur m = Inr l \<and> list_all plainSegment l"
proof -
  let ?b = "slice (beforeTokens root) 0 (segmentStartInBefore m)"
  let ?a = "slice (afterTokens cur) 0 (segmentStartInAfter m)"
  have "plainKeys ?b" "plainKeys ?a"
    using assms by (auto simp: plainSegment_def intro: plainKeys_slice)
  with createSegment_plain[of ?b ?a "beforeIndex cur" "afterIndex cur"]
  show ?thesis by (auto simp: leftSegment_def split: sum.splits)
qed

lemma rightSegment_plain:
  assumes "plainSegment cur"
  shows "\<exists>r. rightSegment cur m = Inr r \<and> list_all plainSegment r"
proof -
  let ?b = "sliceFrom (beforeTokens cur) (segmentEndInBefore m + 1)"
  let ?a = "sliceFrom (afterTokens cur) (segmentEndInAfter m + 1)"
  have "plainKeys ?b" "plainKeys ?a"
    using assms by (auto simp: plainSegment_def intro: plainKeys_sliceFrom)
  with createSegment_plain[of ?b ?a "beforeIndex cur + segmentEndInBefore m + 1"
      "afterIndex cur + segmentEndInAfter m + 1"]
  show ?thesis by (auto simp: rightSegment_def Let_def split: sum.splits)
qed

lemma findMatchingBlocksLoop_plain:
  "plainSegment root \<Longrightarrow> list_all plainSegment segs \<Longrightarrow>
   \<exists>t'. findMatchingBlocksLoop root segs t = Inr t'"
proof (induction root segs t rule: findMatchingBlocksLoop.induct)
  case (1 root matches)
  then show ?case by (simp add: findMatchingBlocksLoop.simps)
next
  case (2 root cur segments matches)
  from "2.prems" have pc: "plainSegment cur" and ps: "list_all plainSegment segments" by auto
  from findBestMatchFrom_plain[OF pc, of 0 None None] obtain best where b: "findBestMatch cur = Inr best"
    by (auto simp: findBestMatch_def)
  show ?case
  proof (cases best)
    case None
    with b "2.IH"(1)[OF b None "2.prems"(1) ps] show ?thesis
      by (simp add: findMatchingBlocksLoop.simps)
  next
    case (Some m)
    show ?thesis
    proof (cases "length' m \<noteq> 0")
      case False
      with b Some "2.IH"(3)[OF b Some _ "2.prems"(1) ps] show ?thesis
        by (simp add: findMatchingBlocksLoop.simps)
    next
      case True
      from leftSegment_plain[OF "2.prems"(1) pc, of m] obtain l where
        l: "leftSegment root cur m = Inr l" "list_all plainSegment l" by blast
      from rightSegment_plain[OF pc, of m] obtain r where
        r: "rightSegment cur m = Inr r" "list_all plainSegment r" by blast
      from "2.IH"(2)[OF b Some True l(1) r(1) "2.prems"(1)] l(2) r(2) ps
      obtain t' where "findMatchingBlocksLoop root (r @ l @ segments) (addToNode matches m) = Inr t'"
        by auto
      with b Some True l(1) r(1) show ?thesis by (simp add: findMatchingBlocksLoop.simps)
    qed
  qed
qed

lemma calculateOperations_returns:
  "(\<exists>ops. calculateOperations bTokens aTokens = Inr ops) \<longleftrightarrow>
   (\<exists>bs as. bTokens = Some bs \<and> aTokens = Some as \<and> plainKeys bs \<and> plainKeys as)"
proof (cases bTokens)
  case None
  then show ?thesis by (simp add: calculateOperations_def)
next
  case (Some bs)
  note b = this
  show ?thesis
  proof (cases aTokens)
    case None
    with b show ?thesis by (simp add: calculateOperations_def)
  next
    case (Some as)
    show ?thesis
    proof (cases "createSegment bs as 0 0")
      case (Inl e)
      with createSegment_plain[of bs as 0 0] b Some show ?thesis
        by (auto simp: calculateOperations_def)
    next
      case (Inr seg)
      with createSegment_plain[of bs as 0 0] have p: "plainKeys bs" "plainKeys as" "plainSegment seg"
        by auto
      from findMatchingBlocksLoop_plain[OF p(3), of "[seg]" Null] p(3)
      obtain t where "findMatchingBlocksLoop seg [seg] Null = Inr t" by auto
      with Inr p b Some show ?thesis
        by (auto simp: calculateOperations_def findMatchingBlocks_def)
    qed
  qed
qed

lemma calculateOperations_error:
  assumes "calculateOperations bTokens aTokens = Inl e"
  shows "(bTokens = None \<and> e = MissingBeforeTokens)
   \<or> (bTokens \<noteq> None \<and> aTokens = None \<and> e = MissingAfterTokens)
   \<or> (\<exists>bs as. bTokens = Some bs \<and> aTokens = Some as \<and> e = TypeError
        \<and> \<not> (plainKeys bs \<and> plainKeys as))"
proof (cases bTokens)
  case None
  with assms show ?thesis by (simp add: calculateOperations_def)
next
  case (Some bs)
  note b = this
  show ?thesis
  proof (cases aTokens)
    case None
    with b assms show ?thesis by (simp add: calculateOperations_def)
  next
    case (Some as)
    from calculateOperations_returns[of bTokens aTokens] b Some assms
    have np: "\<not> (plainKeys bs \<and> plainKeys as)" by auto
    with createSegment_plain[of bs as 0 0] have "createSegment bs as 0 0 = Inl TypeError"
      by (auto split: sum.splits)
    with b Some np assms show ?thesis by (simp add: calculateOperations_def)
  qed
qed

subsection \<open>\<open>combineTokenNotes\<close> cuts the tokens into their maximal runs\<close>

lemma runs_snoc: "runs (zs @ [z]) = addToRuns (runs zs) z"
  by (simp add: runs_def)

lemma slice_nat:
  "b \<le> length xs \<Longrightarrow> slice xs (int a) (int b) = take (b - a) (drop a xs)"
  by (simp add: slice_nonneg)

lemma at_nat: "k < length xs \<Longrightarrow> at xs (int k) = Some (xs ! k)"
  by (simp add: at_def)

definition combineInv ::
  "(string \<Rightarrow> string) \<Rightarrow> tokenNote list \<Rightarrow> string list \<Rightarrow> nat \<Rightarrow> combineData \<Rightarrow> bool" where
  "combineInv tagFn ns toks k d \<longleftrightarrow>
     (let M = markedTokens tagFn ns toks; F = map isWrappableN ns; Z = zip F M in
        current d = take k M @ drop k toks \<and>
        (if k = 0 then status d = None \<and> list d = [] \<and> lastIndex d = 0
         else status d = Some (F ! (k - 1)) \<and> lastIndex d < k \<and>
              (if k = length toks then list d = runs Z
               else list d @ [\<lparr>isWrappableS = F ! (k - 1),
                               tokens = take (k - lastIndex d) (drop (lastIndex d) M)\<rparr>]
                    = runs (take k Z))))"

lemma take_drop_window:
  assumes "b \<le> k" "k \<le> length M"
  shows "take (b - a) (drop a (take k M @ R)) = take (b - a) (drop a M)"
proof -
  have "take b (take k M @ R) = take b M" using assms by (simp add: min_def)
  then have "drop a (take b (take k M @ R)) = drop a (take b M)" by simp
  then show ?thesis by (simp only: drop_take)
qed


lemma length_markedTokens:
  "length ns = length toks \<Longrightarrow> length (markedTokens tagFn ns toks) = length toks"
  by (simp add: markedTokens_def)

lemma nth_markedTokens:
  "length ns = length toks \<Longrightarrow> k < length toks \<Longrightarrow>
   markedTokens tagFn ns toks ! k = (if insertedTag (ns ! k) then tagFn (toks ! k) else toks ! k)"
  by (simp add: markedTokens_def)

lemma current_step:
  assumes len: "length M = length toks" and k: "k < length toks"
  shows "(take k M @ drop k toks)[k := M ! k] = take (Suc k) M @ drop (Suc k) toks"
    and "(take k M @ drop k toks) ! k = toks ! k"
proof -
  have d: "drop k toks = toks ! k # drop (Suc k) toks" using k by (simp add: Cons_nth_drop_Suc)
  have lk: "length (take k M) = k" using len k by simp
  show "(take k M @ drop k toks)[k := M ! k] = take (Suc k) M @ drop (Suc k) toks"
    unfolding d using lk len k by (simp add: list_update_append take_Suc_conv_app_nth)
  show "(take k M @ drop k toks) ! k = toks ! k"
    using lk k by (simp add: nth_append)
qed

lemma window_snoc:
  assumes "L \<le> k" "k < length M"
  shows "take (Suc k - L) (drop L M) = take (k - L) (drop L M) @ [M ! k]"
proof -
  have "Suc k - L = Suc (k - L)" using assms by simp
  moreover have "k - L < length (drop L M)" using assms by simp
  moreover have "drop L M ! (k - L) = M ! k" using assms by simp
  ultimately show ?thesis by (simp add: take_Suc_conv_app_nth)
qed

lemma combineStep_inv:
  assumes len: "length ns = length toks" and k: "k < length toks"
      and inv: "combineInv tagFn ns toks k d"
  shows "combineInv tagFn ns toks (Suc k) (combineStep tagFn ns d x k)"
proof -
  let ?M = "markedTokens tagFn ns toks" and ?F = "map isWrappableN ns"
  let ?Z = "zip ?F ?M"
  let ?n = "length toks"
  let ?L = "lastIndex d"
  have lM: "length ?M = ?n" by (rule length_markedTokens[OF len])
  have lZ: "length ?Z = ?n" using lM len by simp
  have Fk: "isWrappableN (ns ! k) = ?F ! k" using len k by simp
  have atk: "at ns (int k) = Some (ns ! k)" using len k by (simp add: at_nat)
  from inv have cur: "current d = take k ?M @ drop k toks"
    by (simp add: combineInv_def Let_def)
  define T1 where
    "T1 = (if insertedTag (ns ! k) then (current d)[k := tagFn (current d ! k)] else current d)"
  define st0 where "st0 = (case status d of None \<Rightarrow> ?F ! k | Some b \<Rightarrow> b)"
  have step: "combineStep tagFn ns d x k =
      \<lparr>current = T1,
       list = (if int k = int (length T1) - 1
               then (if ?F ! k \<noteq> st0
                     then list d @ [\<lparr>isWrappableS = st0, tokens = slice T1 (int ?L) (int k)\<rparr>]
                     else list d)
                    @ [\<lparr>isWrappableS = (if ?F ! k \<noteq> st0 then ?F ! k else st0),
                        tokens = slice T1 (int (if ?F ! k \<noteq> st0 then k else ?L)) (int k + 1)\<rparr>]
               else (if ?F ! k \<noteq> st0
                     then list d @ [\<lparr>isWrappableS = st0, tokens = slice T1 (int ?L) (int k)\<rparr>]
                     else list d)),
       status = Some (if ?F ! k \<noteq> st0 then ?F ! k else st0),
       lastIndex = (if ?F ! k \<noteq> st0 then k else ?L)\<rparr>"
    by (simp only: combineStep_def Let_def atk option.case T1_def st0_def Fk)
  have t1: "T1 = take (Suc k) ?M @ drop (Suc k) toks"
  proof -
    have ck: "current d ! k = toks ! k" using current_step(2)[OF lM k] cur by simp
    have "T1 = (current d)[k := ?M ! k]"
    proof (cases "insertedTag (ns ! k)")
      case True
      then show ?thesis by (simp add: T1_def ck nth_markedTokens[OF len k])
    next
      case False
      then have "?M ! k = current d ! k" by (simp add: ck nth_markedTokens[OF len k])
      then show ?thesis using False by (simp add: T1_def)
    qed
    then show ?thesis using current_step(1)[OF lM k] cur by simp
  qed
  have lt1: "length T1 = ?n" using t1 lM k by simp
  have winK: "slice T1 (int a) (int k) = take (k - a) (drop a ?M)" for a
  proof -
    have "slice T1 (int a) (int k) = take (k - a) (drop a T1)"
      using lt1 k by (intro slice_nat) simp
    also have "\<dots> = take (k - a) (drop a ?M)"
      unfolding t1 using lM k by (intro take_drop_window) auto
    finally show ?thesis .
  qed
  have winS: "slice T1 (int a) (int k + 1) = take (Suc k - a) (drop a ?M)" for a
  proof -
    have e: "int k + 1 = int (Suc k)" by simp
    have "slice T1 (int a) (int k + 1) = take (Suc k - a) (drop a T1)"
      unfolding e using lt1 k by (intro slice_nat) simp
    also have "\<dots> = take (Suc k - a) (drop a ?M)"
      unfolding t1 using lM k by (intro take_drop_window) auto
    finally show ?thesis .
  qed
  have last_index: "int k = int (length T1) - 1 \<longleftrightarrow> Suc k = ?n" using k lt1 by auto
  have zs: "take (Suc k) ?Z = take k ?Z @ [(?F ! k, ?M ! k)]"
    using lZ lM len k by (simp add: take_Suc_conv_app_nth)
  have one: "take (Suc k - k) (drop k ?M) = [?M ! k]"
    using lM k by (simp add: take_Suc_conv_app_nth Cons_nth_drop_Suc[symmetric])
  have all: "Suc k = ?n \<Longrightarrow> take (Suc k) ?Z = ?Z" using lZ by simp
  \<comment> \<open>the runs of the first \<open>k + 1\<close> tokens, in the two cases of the step\<close>
  have goal: "status d = None \<and> list d = [] \<and> ?L = 0 \<and> k = 0 \<and> st0 = ?F ! k
         \<and> runs (take (Suc k) ?Z) = [\<lparr>isWrappableS = ?F ! k, tokens = take (Suc k - ?L) (drop ?L ?M)\<rparr>]
      \<or> 0 < k \<and> ?L < k \<and> st0 = ?F ! (k - 1) \<and> ?F ! k = st0
         \<and> runs (take (Suc k) ?Z) = list d @ [\<lparr>isWrappableS = ?F ! k, tokens = take (Suc k - ?L) (drop ?L ?M)\<rparr>]
      \<or> 0 < k \<and> ?L < k \<and> st0 = ?F ! (k - 1) \<and> ?F ! k \<noteq> st0
         \<and> runs (take (Suc k) ?Z) = list d @ [\<lparr>isWrappableS = st0, tokens = take (k - ?L) (drop ?L ?M)\<rparr>,
                                            \<lparr>isWrappableS = ?F ! k, tokens = take (Suc k - k) (drop k ?M)\<rparr>]"
  proof (cases "k = 0")
    case True
    with inv have d0: "status d = None" "list d = []" "?L = 0"
      by (simp_all add: combineInv_def Let_def)
    have "runs (take (Suc k) ?Z) = [\<lparr>isWrappableS = ?F ! k, tokens = [?M ! k]\<rparr>]"
      using zs True by (simp add: runs_def addToRuns_def)
    then show ?thesis using d0 True one by (simp add: st0_def)
  next
    case False
    with inv k have dk: "status d = Some (?F ! (k - 1))" "?L < k"
      "list d @ [\<lparr>isWrappableS = ?F ! (k - 1), tokens = take (k - ?L) (drop ?L ?M)\<rparr>]
         = runs (take k ?Z)"
      by (simp_all add: combineInv_def Let_def)
    have s0: "st0 = ?F ! (k - 1)" using dk(1) by (simp add: st0_def)
    show ?thesis
    proof (cases "?F ! k = st0")
      case True
      have "runs (take (Suc k) ?Z)
            = list d @ [\<lparr>isWrappableS = ?F ! k, tokens = take (k - ?L) (drop ?L ?M) @ [?M ! k]\<rparr>]"
        unfolding zs runs_snoc dk(3)[symmetric] using True s0 by (simp add: addToRuns_def)
      then show ?thesis using False dk(2) s0 True window_snoc[of ?L k ?M] lM k by simp
    next
      case ne: False
      have "runs (take (Suc k) ?Z)
            = list d @ [\<lparr>isWrappableS = st0, tokens = take (k - ?L) (drop ?L ?M)\<rparr>,
                        \<lparr>isWrappableS = ?F ! k, tokens = [?M ! k]\<rparr>]"
        unfolding zs runs_snoc dk(3)[symmetric] using ne s0 by (simp add: addToRuns_def)
      then show ?thesis using False dk(2) s0 ne one by simp
    qed
  qed
  let ?d = "combineStep tagFn ns d x k"
  have c': "current ?d = take (Suc k) ?M @ drop (Suc k) toks"
    by (simp only: step t1 combineData.simps)
  have key: "status ?d = Some (?F ! k) \<and> lastIndex ?d < Suc k \<and>
        list ?d @ (if Suc k = ?n then []
                   else [\<lparr>isWrappableS = ?F ! k,
                          tokens = take (Suc k - lastIndex ?d) (drop (lastIndex ?d) ?M)\<rparr>])
          = runs (take (Suc k) ?Z)"
    using goal
  proof (elim disjE conjE)
    assume a: "status d = None" "list d = []" "?L = 0" "k = 0" "st0 = ?F ! k"
      "runs (take (Suc k) ?Z) = [\<lparr>isWrappableS = ?F ! k, tokens = take (Suc k - ?L) (drop ?L ?M)\<rparr>]"
    have f: "status ?d = Some (?F ! k)" "lastIndex ?d = ?L"
      "list ?d = (if Suc k = ?n
                  then [\<lparr>isWrappableS = ?F ! k, tokens = take (Suc k - ?L) (drop ?L ?M)\<rparr>] else [])"
      by (simp_all add: step a(2,5) winS last_index)
    show ?thesis unfolding f a(6) using a(3) by simp
  next
    assume a: "0 < k" "?L < k" "st0 = ?F ! (k - 1)" "?F ! k = st0"
      "runs (take (Suc k) ?Z) = list d @ [\<lparr>isWrappableS = ?F ! k, tokens = take (Suc k - ?L) (drop ?L ?M)\<rparr>]"
    have f: "status ?d = Some (?F ! k)" "lastIndex ?d = ?L"
      "list ?d = (if Suc k = ?n
                  then list d @ [\<lparr>isWrappableS = ?F ! k, tokens = take (Suc k - ?L) (drop ?L ?M)\<rparr>]
                  else list d)"
      by (simp_all add: step a(4)[symmetric] winS last_index)
    show ?thesis unfolding f a(5) using a(2) by simp
  next
    assume a: "0 < k" "?L < k" "st0 = ?F ! (k - 1)" "?F ! k \<noteq> st0"
      "runs (take (Suc k) ?Z) = list d @ [\<lparr>isWrappableS = st0, tokens = take (k - ?L) (drop ?L ?M)\<rparr>,
                                            \<lparr>isWrappableS = ?F ! k, tokens = take (Suc k - k) (drop k ?M)\<rparr>]"
    have f: "status ?d = Some (?F ! k)" "lastIndex ?d = k"
      "list ?d = (if Suc k = ?n
                  then list d @ [\<lparr>isWrappableS = st0, tokens = take (k - ?L) (drop ?L ?M)\<rparr>,
                                 \<lparr>isWrappableS = ?F ! k, tokens = take (Suc k - k) (drop k ?M)\<rparr>]
                  else list d @ [\<lparr>isWrappableS = st0, tokens = take (k - ?L) (drop ?L ?M)\<rparr>])"
      using a(4) by (simp_all add: step winS winK last_index)
    show ?thesis unfolding f a(5) one by simp
  qed
  show ?thesis
  proof (cases "Suc k = ?n")
    case True
    then have "length toks - Suc 0 = k" "toks \<noteq> []" by auto
    with True key all[OF True] c' show ?thesis
      unfolding combineInv_def Let_def by simp
  next
    case False
    with key c' show ?thesis
      unfolding combineInv_def Let_def by simp
  qed
qed


lemma reduceIndexed_combine:
  assumes len: "length ns = length toks"
  shows "xs = drop k toks \<Longrightarrow> k \<le> length toks \<Longrightarrow> combineInv tagFn ns toks k d \<Longrightarrow>
         combineInv tagFn ns toks (length toks) (reduceIndexed (combineStep tagFn ns) d k xs)"
proof (induction xs arbitrary: k d)
  case Nil
  then have "k = length toks" by simp
  with Nil.prems(3) show ?case by simp
next
  case (Cons x xs)
  from Cons.prems(1) have k: "k < length toks"
    by (metis drop_all list.distinct(1) not_le)
  from Cons.prems(1) have xs: "xs = drop (Suc k) toks"
    by (metis drop_Suc list.sel(3) tl_drop)
  from Cons.IH[OF xs _ combineStep_inv[OF len k Cons.prems(3)]] k show ?case by simp
qed

lemma combineSegments_runs:
  assumes "length ns = length toks"
  shows "combineSegments tagFn toks ns
         = runs (zip (map isWrappableN ns) (markedTokens tagFn ns toks))"
proof -
  let ?d0 = "\<lparr>current = toks, list = [], status = None, lastIndex = 0\<rparr>"
  have "combineInv tagFn ns toks 0 ?d0" by (simp add: combineInv_def Let_def)
  from reduceIndexed_combine[OF assms _ _ this, of toks]
  have inv: "combineInv tagFn ns toks (length toks) (reduceIndexed (combineStep tagFn ns) ?d0 0 toks)"
    by simp
  show ?thesis
  proof (cases "toks = []")
    case True
    then show ?thesis using assms by (simp add: combineSegments_def runs_def markedTokens_def)
  next
    case False
    with inv show ?thesis by (simp add: combineInv_def Let_def combineSegments_def)
  qed
qed

lemma map_isWrappableN_update:
  "map isWrappableN (xs[p := (xs ! p)\<lparr>insertedTag := True\<rparr>]) = map isWrappableN xs"
  by (cases "p < length xs") (simp_all add: map_update list_update_same_conv list_update_beyond)

lemma tokenWrapperStep_notes:
  "map isWrappableN (notes' (tokenWrapperStep d t i)) = map isWrappableN (notes' d) @ [isWrappable t]"
  by (simp add: tokenWrapperStep_def Let_def map_isWrappableN_update)

lemma reduceIndexed_tokenWrapper:
  "map isWrappableN (notes' (reduceIndexed tokenWrapperStep d i ts))
   = map isWrappableN (notes' d) @ map isWrappable ts"
  by (induction ts arbitrary: d i) (simp_all add: tokenWrapperStep_notes)

lemma TokenWrapper_wrappable: "map isWrappableN (TokenWrapper content) = map isWrappable content"
  by (simp add: TokenWrapper_def reduceIndexed_tokenWrapper)

lemma length_TokenWrapper: "length (TokenWrapper content) = length content"
  using TokenWrapper_wrappable[of content] by (metis length_map)

lemma join_empty: "join xs [] = concat xs"
  by (induction xs "[] :: string" rule: join.induct) simp_all

lemma runs_concat: "concat (map tokens (runs zs)) = map snd zs"
proof (induction zs rule: rev_induct)
  case Nil
  then show ?case by (simp add: runs_def)
next
  case (snoc z zs)
  note IH = snoc.IH
  show ?case
  proof (cases "runs zs" rule: rev_cases)
    case Nil
    with IH show ?thesis unfolding runs_snoc by (simp add: addToRuns_def)
  next
    case (snoc rs r)
    with IH show ?thesis unfolding runs_snoc by (simp add: addToRuns_def)
  qed
qed

lemma runs_alternate: "distinct_adj (map isWrappableS (runs zs))"
proof (induction zs rule: rev_induct)
  case Nil
  then show ?case by (simp add: runs_def)
next
  case (snoc z zs)
  note IH = snoc.IH
  show ?case
  proof (cases "runs zs" rule: rev_cases)
    case Nil
    then show ?thesis unfolding runs_snoc by (simp add: addToRuns_def)
  next
    case (snoc rs r)
    with IH show ?thesis unfolding runs_snoc
      by (auto simp: addToRuns_def distinct_adj_append_iff)
  qed
qed

section \<open>The claims\<close>

text \<open>
  C9. \<open>htmlToTokens\<close> is a total function: for every input string, malformed markup
  included (unterminated tags, comments and entities, atomic tags that are never closed),
  the scanning loop terminates although it steps back one position when it leaves
  whitespace mode, and the call returns a token list: no error is raised, so the
  unknown-mode branch of the \<^verbatim>\<open>switch\<close> is never taken. The loop is \<open>scanLoop\<close>, whose
  termination is proved with the measure \<open>scanMeasure\<close>.
\<close>

theorem htmlToTokens_total: "\<exists>ws. htmlToTokens html = Inr ws"
proof -
  let ?s0 = "\<lparr>charIdx = 0, mode = ''char'', currentWord = [], currentWordPos = 0,
              currentAtomicTag = [], words = []\<rparr>"
  have "scanOk ?s0" by (simp add: scanOk_def validMode_def)
  then obtain s' where "scanLoop html ?s0 = Inr s'"
    using scanLoop_invariant[where P = scanOk and u = html and s = ?s0] scanStep_scanOk
    by blast
  then show ?thesis by (simp add: htmlToTokens_def)
qed

theorem htmlToTokens_total_witness:
  "\<exists>ws. htmlToTokens ''<p class=x>a &amp b <!-- c'' = Inr ws"
  by (rule htmlToTokens_total)

text \<open>
  C10. For every input string that contains no HTML comment, the \<open>str\<close> fields of the
  tokens that \<open>htmlToTokens\<close> returns, concatenated in order, are the input string: no
  character is dropped, duplicated or moved.
\<close>

theorem htmlToTokens_lossless:
  assumes "\<not> containsHTMLComment html"
  shows "\<exists>ws. htmlToTokens html = Inr ws \<and> concat (map str ws) = html"
proof -
  let ?s0 = "\<lparr>charIdx = 0, mode = ''char'', currentWord = [], currentWordPos = 0,
              currentAtomicTag = [], words = []\<rparr>"
  have "lossless html ?s0" by (simp add: lossless_def scanOk_def validMode_def)
  then obtain s' where s': "scanLoop html ?s0 = Inr s'" "lossless html s'"
      "\<not> charIdx s' < int (length html)"
    using scanLoop_invariant[where P = "lossless html" and u = html and s = ?s0]
      scanStep_lossless[OF assms]
    by blast
  then have "concat (map str (pushCurrentWord s')) = html"
    by (simp add: str_pushCurrentWord lossless_def)
  with s'(1) show ?thesis by (simp add: htmlToTokens_def)
qed

theorem htmlToTokens_lossless_witness:
  "\<not> containsHTMLComment ''<p>a &amp; b<!-- c'' \<and>
   (\<exists>ws. htmlToTokens ''<p>a &amp; b<!-- c'' = Inr ws \<and> concat (map str ws) = ''<p>a &amp; b<!-- c'')"
proof -
  have h: "\<not> containsHTMLComment ''<p>a &amp; b<!-- c''" by code_simp
  show ?thesis using h htmlToTokens_lossless[OF h] by simp
qed


text \<open>
  C3. \<open>diff\<close> returns its first argument unchanged whenever the two strings are equal,
  whatever the class name and the data prefix are.
\<close>

theorem diff_identity: "diff S S className dataPrefix = Inr S"
  by (simp add: diff_def)

theorem diff_identity_witness:
  "diff ''<p>constructor <!-- x'' ''<p>constructor <!-- x'' ''c'' ''p'' = Inr ''<p>constructor <!-- x''"
  by (rule diff_identity)

text \<open>
  C4 (the code departs from the claim). Every match has
  \<open>length = endInBefore - startInBefore + 1 = endInAfter - startInAfter + 1\<close>, but the keys
  of the matched tokens need not agree: for the area before a match, \<open>findMatchingBlocks\<close>
  slices the before tokens of the segment it was called with, not those of the current
  segment. For the inputs \<^verbatim>\<open>.,u m\<close> and \<^verbatim>\<open>.,v,m\<close> it returns a match of length 1 at
  index 3 of both lists, where the before token is a space and the after token a comma.
\<close>

theorem findMatchingBlocks_key_mismatch:
  "htmlToTokens ''.,u m'' =
     Inr [createToken ''.'' 0, createToken '','' 1, createToken ''u'' 2,
          createToken '' '' 3, createToken ''m'' 3]
   \<and> htmlToTokens ''.,v,m'' =
     Inr [createToken ''.'' 0, createToken '','' 1, createToken ''v'' 2,
          createToken '','' 3, createToken ''m'' 4]
   \<and> map_sum id (map matchRange)
       (matchingBlocks
          [createToken ''.'' 0, createToken '','' 1, createToken ''u'' 2,
           createToken '' '' 3, createToken ''m'' 3]
          [createToken ''.'' 0, createToken '','' 1, createToken ''v'' 2,
           createToken '','' 3, createToken ''m'' 4])
     = Inr [(0, 1, 0, 1, 2), (3, 3, 3, 3, 1), (4, 4, 4, 4, 1)]
   \<and> key (createToken '' '' 3) = '' '' \<and> key (createToken '','' 3) = '',''"
proof -
  have "htmlToTokens ''.,u m'' =
     Inr [createToken ''.'' 0, createToken '','' 1, createToken ''u'' 2,
          createToken '' '' 3, createToken ''m'' 3]"
    by code_simp
  moreover have "htmlToTokens ''.,v,m'' =
     Inr [createToken ''.'' 0, createToken '','' 1, createToken ''v'' 2,
          createToken '','' 3, createToken ''m'' 4]"
    by code_simp
  moreover have "map_sum id (map matchRange)
       (matchingBlocks
          [createToken ''.'' 0, createToken '','' 1, createToken ''u'' 2,
           createToken '' '' 3, createToken ''m'' 3]
          [createToken ''.'' 0, createToken '','' 1, createToken ''v'' 2,
           createToken '','' 3, createToken ''m'' 4])
     = Inr [(0, 1, 0, 1, 2), (3, 3, 3, 3, 1), (4, 4, 4, 4, 1)]"
    by code_simp
  moreover have "key (createToken '' '' 3) = '' ''" by code_simp
  moreover have "key (createToken '','' 3) = '',''" by code_simp
  ultimately show ?thesis by blast
qed

text \<open>
  C5 (the code departs from the claim). \<open>isSingleWhitespace\<close> tests the string of a slice
  of token objects, which is \<^verbatim>\<open>[object Object]\<close> and never a whitespace character, so an
  equal operation over one whitespace token that follows a kept replace is kept. For the
  token lists of \<^verbatim>\<open>.,u m\<close> and \<^verbatim>\<open>.,v,m\<close> the operation at before index 3, a single
  space, follows the replace at index 2 and is in the result.
\<close>

theorem calculateOperations_keeps_whitespace:
  "calculateOperations
     (Some [createToken ''.'' 0, createToken '','' 1, createToken ''u'' 2,
            createToken '' '' 3, createToken ''m'' 3])
     (Some [createToken ''.'' 0, createToken '','' 1, createToken ''v'' 2,
            createToken '','' 3, createToken ''m'' 4])
   = Inr [\<lparr>action = Equal, startInBefore = 0, endInBefore = Some 1,
            startInAfter = 0, endInAfter = Some 1\<rparr>,
          \<lparr>action = Replace, startInBefore = 2, endInBefore = Some 2,
            startInAfter = 2, endInAfter = Some 2\<rparr>,
          \<lparr>action = Equal, startInBefore = 3, endInBefore = Some 3,
            startInAfter = 3, endInAfter = Some 3\<rparr>,
          \<lparr>action = Equal, startInBefore = 4, endInBefore = Some 4,
            startInAfter = 4, endInAfter = Some 4\<rparr>]
   \<and> str (createToken '' '' 3) = '' ''"
proof -
  have "str (createToken '' '' 3) = '' ''" by (simp add: createToken_def)
  moreover have "calculateOperations
     (Some [createToken ''.'' 0, createToken '','' 1, createToken ''u'' 2,
            createToken '' '' 3, createToken ''m'' 3])
     (Some [createToken ''.'' 0, createToken '','' 1, createToken ''v'' 2,
            createToken '','' 3, createToken ''m'' 4])
   = Inr [\<lparr>action = Equal, startInBefore = 0, endInBefore = Some 1,
            startInAfter = 0, endInAfter = Some 1\<rparr>,
          \<lparr>action = Replace, startInBefore = 2, endInBefore = Some 2,
            startInAfter = 2, endInAfter = Some 2\<rparr>,
          \<lparr>action = Equal, startInBefore = 3, endInBefore = Some 3,
            startInAfter = 3, endInAfter = Some 3\<rparr>,
          \<lparr>action = Equal, startInBefore = 4, endInBefore = Some 4,
            startInAfter = 4, endInAfter = Some 4\<rparr>]"
    by code_simp
  ultimately show ?thesis by blast
qed

text \<open>
  C6 (corrected). The claim says that a wrappable run of tokens whose text is empty or only
  whitespace is emitted as its bare content. \<open>wrap\<close> emits nothing for it: an inserted
  single space is one wrappable run, and it renders as the empty string.
\<close>

theorem wrap_whitespace_counterexample:
  "runs (zip (map isWrappable ['' ''])
            (markedTokens (wrapTagFn ''ins'' 0 []) (TokenWrapper ['' '']) ['' '']))
     = [\<lparr>isWrappableS = True, tokens = ['' '']\<rparr>]
   \<and> trim (concat ['' '']) = []
   \<and> wrapMapFn ''ins'' (wrapAttrs 0 [] []) \<lparr>isWrappableS = True, tokens = ['' '']\<rparr>
       \<noteq> concat ['' '']
   \<and> wrap ''ins'' ['' ''] 0 [] [] = []"
proof -
  have "runs (zip (map isWrappable ['' ''])
            (markedTokens (wrapTagFn ''ins'' 0 []) (TokenWrapper ['' '']) ['' '']))
     = [\<lparr>isWrappableS = True, tokens = ['' '']\<rparr>]"
    by code_simp
  moreover have "trim (concat ['' '']) = []" by code_simp
  moreover have "wrapMapFn ''ins'' (wrapAttrs 0 [] []) \<lparr>isWrappableS = True, tokens = ['' '']\<rparr>
       \<noteq> concat ['' '']"
    by code_simp
  moreover have "wrap ''ins'' ['' ''] 0 [] [] = []" by code_simp
  ultimately show ?thesis by blast
qed

text \<open>
  C6, amended. The output of \<open>wrap\<close> is the concatenation of what the maximal runs of its
  tokens render to, and every wrappable run whose concatenated token text is empty or only
  whitespace renders to the empty string: neither a wrapper nor the characters of the run
  appear in the output.
\<close>

theorem wrap_whitespace_runs:
  "wrap tg content i p c =
     concat (map (wrapMapFn tg (wrapAttrs i p c))
               (runs (zip (map isWrappable content)
                          (markedTokens (wrapTagFn tg i p) (TokenWrapper content) content))))
   \<and> (\<forall>seg. isWrappableS seg \<longrightarrow> trim (concat (tokens seg)) = [] \<longrightarrow>
         wrapMapFn tg (wrapAttrs i p c) seg = [])"
proof -
  have "combineSegments (wrapTagFn tg i p) content (TokenWrapper content)
        = runs (zip (map isWrappable content)
                    (markedTokens (wrapTagFn tg i p) (TokenWrapper content) content))"
    using combineSegments_runs[OF length_TokenWrapper] by (simp add: TokenWrapper_wrappable)
  then show ?thesis
    by (simp add: wrap_def combineTokenNotes_def join_empty wrapMapFn_def)
qed

theorem wrap_whitespace_runs_witness:
  "runs (zip (map isWrappable [''</b>'', '' ''])
            (markedTokens (wrapTagFn ''ins'' 0 []) (TokenWrapper [''</b>'', '' ''])
               [''</b>'', '' '']))
     = [\<lparr>isWrappableS = False, tokens = [''</b>'']\<rparr>,
        \<lparr>isWrappableS = True, tokens = ['' '']\<rparr>]
   \<and> wrapMapFn ''ins'' (wrapAttrs 0 [] []) \<lparr>isWrappableS = True, tokens = ['' '']\<rparr> = []
   \<and> wrap ''ins'' [''</b>'', '' ''] 0 [] [] = ''</b>''"
proof -
  let ?run = "\<lparr>isWrappableS = True, tokens = ['' '']\<rparr>"
  have rs: "runs (zip (map isWrappable [''</b>'', '' ''])
            (markedTokens (wrapTagFn ''ins'' 0 []) (TokenWrapper [''</b>'', '' ''])
               [''</b>'', '' '']))
     = [\<lparr>isWrappableS = False, tokens = [''</b>'']\<rparr>, ?run]"
    by code_simp
  have ws: "trim (concat (tokens ?run)) = []" by code_simp
  have nw: "wrapMapFn ''ins'' (wrapAttrs 0 [] []) \<lparr>isWrappableS = False, tokens = [''</b>'']\<rparr>
            = ''</b>''"
    by code_simp
  from wrap_whitespace_runs[of "''ins''" "[''</b>'', '' '']" 0 "[]" "[]"]
  have out: "wrap ''ins'' [''</b>'', '' ''] 0 [] [] =
        concat (map (wrapMapFn ''ins'' (wrapAttrs 0 [] []))
                  [\<lparr>isWrappableS = False, tokens = [''</b>'']\<rparr>, ?run])"
    and all: "\<forall>seg. isWrappableS seg \<longrightarrow> trim (concat (tokens seg)) = [] \<longrightarrow>
                wrapMapFn ''ins'' (wrapAttrs 0 [] []) seg = []"
    unfolding rs by blast+
  from all ws have e: "wrapMapFn ''ins'' (wrapAttrs 0 [] []) ?run = []" by simp
  with out nw have "wrap ''ins'' [''</b>'', '' ''] 0 [] [] = ''</b>''" by simp
  with rs e show ?thesis by blast
qed

text \<open>
  C7 (the code departs from the claim). \<open>diff\<close> takes the two strings, a class name and a
  data prefix; the list of atomic tags that its documentation describes is not among its
  parameters, and \<open>isStartOfAtomicTag\<close> reads the fixed list \<open>atomicTags\<close>. So
  \<^verbatim>\<open><b>x</b>\<close> is three tokens in every call, and the fixed list holds \<^verbatim>\<open>a\<close> as well.
\<close>

theorem atomicTags_fixed:
  "map_sum id (map str) (htmlToTokens ''<b>x</b>'') = Inr [''<b>'', ''x'', ''</b>'']
   \<and> map_sum id (map str) (htmlToTokens ''<a>x</a>'') = Inr [''<a>x</a>'']
   \<and> diff ''<b>x</b>'' ''<b>y</b>'' [] [] =
       Inr (''<b><del data-operation-index=\"1\">x</del>''
            @ ''<ins data-operation-index=\"1\">y</ins></b>'')"
proof -
  have "map_sum id (map str) (htmlToTokens ''<b>x</b>'') = Inr [''<b>'', ''x'', ''</b>'']"
    by code_simp
  moreover have "map_sum id (map str) (htmlToTokens ''<a>x</a>'') = Inr [''<a>x</a>'']"
    by code_simp
  moreover have "diff ''<b>x</b>'' ''<b>y</b>'' [] [] =
       Inr (''<b><del data-operation-index=\"1\">x</del>''
            @ ''<ins data-operation-index=\"1\">y</ins></b>'')"
    by code_simp
  ultimately show ?thesis by blast
qed

text \<open>
  C8 (the code departs from the claim). \<open>calculateOperations\<close> raises the missing-tokens
  errors when an argument is absent, and \<open>diff\<close> never passes an absent argument. It also
  raises when both lists are present and a token has the key \<^verbatim>\<open>constructor\<close>:
  \<open>createMap\<close> reads the key from an object literal, finds the inherited property and
  calls its \<^verbatim>\<open>push\<close>. \<open>diff\<close> reaches this error through \<open>htmlToTokens\<close>.
\<close>

theorem calculateOperations_constructor:
  "htmlToTokens ''constructor'' = Inr [createToken ''constructor'' 0]
   \<and> calculateOperations (Some [createToken ''constructor'' 0]) (Some []) = Inl TypeError
   \<and> diff ''constructor'' [] [] [] = Inl TypeError"
proof -
  have "htmlToTokens ''constructor'' = Inr [createToken ''constructor'' 0]" by code_simp
  moreover have
    "calculateOperations (Some [createToken ''constructor'' 0]) (Some []) = Inl TypeError"
    by code_simp
  moreover have "diff ''constructor'' [] [] [] = Inl TypeError" by code_simp
  ultimately show ?thesis by blast
qed

text \<open>
  C2. Whenever \<open>calculateOperations\<close> returns operations for two token lists, the ranges
  \<open>[startInBefore, endInBefore]\<close> of the operations with a before side (equal, delete,
  replace), in order, tile the index range of the before tokens without gap or overlap,
  and the ranges \<open>[startInAfter, endInAfter]\<close> of the operations with an after side
  (equal, insert, replace) tile the index range of the after tokens.
\<close>

theorem calculateOperations_coverage:
  assumes "calculateOperations (Some bs) (Some as) = Inr ops"
  shows "tiles 0 (beforeRanges ops) (int (length bs)) \<and> tiles 0 (afterRanges ops) (int (length as))"
proof -
  from calculateOperations_result[OF assms] obtain seg ms where
    seg: "createSegment bs as 0 0 = Inr seg" and
    ops: "ops = operationsFrom 0 0 (ms @ [makeMatch (int (length bs)) (int (length as)) 0 seg])" and
    s: "sorted_wrt precedes ms" "list_all (globalMatch (int (length bs)) (int (length as))) ms"
    by blast
  let ?z = "makeMatch (int (length bs)) (int (length as)) 0 seg"
  from createSegment_tokens[OF seg]
  have z: "match.startInBefore ?z = int (length bs)" "match.startInAfter ?z = int (length as)"
    "length' ?z = 0" by (simp_all add: makeMatch_def)
  have b0: "list_all (\<lambda>m. 0 \<le> match.startInBefore m) ms"
    and a0: "list_all (\<lambda>m. 0 \<le> match.startInAfter m) ms"
    using s(2) by (auto simp: list_all_iff globalMatch_def)
  show ?thesis
    using operationsFrom_tiles_before[OF s(2) s(1) b0 _ z(1) z(3), of 0]
      operationsFrom_tiles_after[OF s(2) s(1) a0 _ z(2) z(3), of 0] ops
    by simp
qed

theorem calculateOperations_coverage_witness:
  "calculateOperations
     (Some [createToken ''working'' 0, createToken '' '' 7, createToken ''on'' 7,
            createToken '' '' 10, createToken ''it'' 10])
     (Some [createToken ''working'' 0, createToken '' '' 7, createToken ''in'' 7,
            createToken '' '' 10, createToken ''it'' 10])
   = Inr [\<lparr>action = Equal, startInBefore = 0, endInBefore = Some 1,
            startInAfter = 0, endInAfter = Some 1\<rparr>,
          \<lparr>action = Replace, startInBefore = 2, endInBefore = Some 2,
            startInAfter = 2, endInAfter = Some 2\<rparr>,
          \<lparr>action = Equal, startInBefore = 3, endInBefore = Some 4,
            startInAfter = 3, endInAfter = Some 4\<rparr>]
   \<and> tiles 0 [(0, Some 1), (2, Some 2), (3, Some 4)] 5"
proof -
  let ?ops = "[\<lparr>action = Equal, startInBefore = 0, endInBefore = Some 1,
            startInAfter = 0, endInAfter = Some 1\<rparr>,
          \<lparr>action = Replace, startInBefore = 2, endInBefore = Some 2,
            startInAfter = 2, endInAfter = Some 2\<rparr>,
          \<lparr>action = Equal, startInBefore = 3, endInBefore = Some 4,
            startInAfter = 3, endInAfter = Some 4\<rparr>]"
  have h: "calculateOperations
     (Some [createToken ''working'' 0, createToken '' '' 7, createToken ''on'' 7,
            createToken '' '' 10, createToken ''it'' 10])
     (Some [createToken ''working'' 0, createToken '' '' 7, createToken ''in'' 7,
            createToken '' '' 10, createToken ''it'' 10])
   = Inr ?ops"
    by code_simp
  from calculateOperations_coverage[OF h]
  have "tiles 0 (beforeRanges ?ops) 5" by simp
  then have "tiles 0 [(0, Some 1), (2, Some 2), (3, Some 4)] 5"
    by (simp add: beforeRanges_def hasBeforeSide_def)
  with h show ?thesis by blast
qed

text \<open>
  C1. Whenever \<open>calculateOperations\<close> returns operations for two token lists, the text of
  the tokens in the after-side ranges of the equal, insert and replace operations,
  concatenated in order, is the concatenated text of the after tokens, and the text of the
  tokens in the before-side ranges of the equal, delete and replace operations is the
  concatenated text of the before tokens.
\<close>

theorem calculateOperations_conservation:
  assumes "calculateOperations (Some bs) (Some as) = Inr ops"
  shows "rangesText as (afterRanges ops) = concat (map str as)
       \<and> rangesText bs (beforeRanges ops) = concat (map str bs)"
proof -
  from calculateOperations_result[OF assms] obtain seg ms where
    seg: "createSegment bs as 0 0 = Inr seg" and
    ops: "ops = operationsFrom 0 0 (ms @ [makeMatch (int (length bs)) (int (length as)) 0 seg])" and
    s: "sorted_wrt precedes ms" "list_all (globalMatch (int (length bs)) (int (length as))) ms"
    by blast
  let ?z = "makeMatch (int (length bs)) (int (length as)) 0 seg"
  from createSegment_tokens[OF seg]
  have z: "match.startInBefore ?z = int (length bs)" "match.startInAfter ?z = int (length as)"
    "length' ?z = 0" by (simp_all add: makeMatch_def)
  have b0: "list_all (\<lambda>m. 0 \<le> match.startInBefore m) ms"
    and a0: "list_all (\<lambda>m. 0 \<le> match.startInAfter m) ms"
    using s(2) by (auto simp: list_all_iff globalMatch_def)
  have tb: "tiles 0 (beforeRanges ops) (int (length bs))"
    using operationsFrom_tiles_before[OF s(2) s(1) b0 _ z(1) z(3), of 0] ops by simp
  have ta: "tiles 0 (afterRanges ops) (int (length as))"
    using operationsFrom_tiles_after[OF s(2) s(1) a0 _ z(2) z(3), of 0] ops by simp
  show ?thesis
    using tiles_tokens[OF _ tb, of bs] tiles_tokens[OF _ ta, of as]
    by (simp add: rangesText_def slice_all)
qed

theorem calculateOperations_conservation_witness:
  "calculateOperations
     (Some [createToken ''working'' 0, createToken '' '' 7, createToken ''it'' 7])
     (Some [createToken ''working'' 0, createToken '' '' 7, createToken ''in'' 7,
            createToken '' '' 10, createToken ''it'' 10])
   = Inr [\<lparr>action = Equal, startInBefore = 0, endInBefore = Some 1,
            startInAfter = 0, endInAfter = Some 1\<rparr>,
          \<lparr>action = Insert, startInBefore = 2, endInBefore = None,
            startInAfter = 2, endInAfter = Some 3\<rparr>,
          \<lparr>action = Equal, startInBefore = 2, endInBefore = Some 2,
            startInAfter = 4, endInAfter = Some 4\<rparr>]
   \<and> rangesText
        [createToken ''working'' 0, createToken '' '' 7, createToken ''in'' 7,
         createToken '' '' 10, createToken ''it'' 10]
        [(0, Some 1), (2, Some 3), (4, Some 4)] = ''working in it''
   \<and> rangesText
        [createToken ''working'' 0, createToken '' '' 7, createToken ''it'' 7]
        [(0, Some 1), (2, Some 2)] = ''working it''"
proof -
  let ?bs = "[createToken ''working'' 0, createToken '' '' 7, createToken ''it'' 7]"
  let ?as = "[createToken ''working'' 0, createToken '' '' 7, createToken ''in'' 7,
            createToken '' '' 10, createToken ''it'' 10]"
  let ?ops = "[\<lparr>action = Equal, startInBefore = 0, endInBefore = Some 1,
            startInAfter = 0, endInAfter = Some 1\<rparr>,
          \<lparr>action = Insert, startInBefore = 2, endInBefore = None,
            startInAfter = 2, endInAfter = Some 3\<rparr>,
          \<lparr>action = Equal, startInBefore = 2, endInBefore = Some 2,
            startInAfter = 4, endInAfter = Some 4\<rparr>]"
  have h: "calculateOperations (Some ?bs) (Some ?as) = Inr ?ops" by code_simp
  have a: "afterRanges ?ops = [(0, Some 1), (2, Some 3), (4, Some 4)]"
    by (simp add: afterRanges_def hasAfterSide_def)
  have b: "beforeRanges ?ops = [(0, Some 1), (2, Some 2)]"
    by (simp add: beforeRanges_def hasBeforeSide_def)
  from calculateOperations_conservation[OF h]
  have "rangesText ?as [(0, Some 1), (2, Some 3), (4, Some 4)] = concat (map str ?as)"
    "rangesText ?bs [(0, Some 1), (2, Some 2)] = concat (map str ?bs)"
    unfolding a b by blast+
  then have "rangesText ?as [(0, Some 1), (2, Some 3), (4, Some 4)] = ''working in it''"
    "rangesText ?bs [(0, Some 1), (2, Some 2)] = ''working it''"
    by (simp_all add: createToken_def)
  with h show ?thesis by blast
qed

end
